theory Spec2Isabelle
  imports Complex_Main "HOL-Library.AList" "HOL-Library.Sublist"
begin

section \<open>The crawler of \<^verbatim>\<open>src/crawler.py\<close>\<close>

text \<open>
  The class \<^verbatim>\<open>Crawler\<close> is a record of its attributes; every method takes the state and
  returns the new one. What the crawler reads from outside (the pages, the clock, the
  standard library's URL parser, the robots files, the faults of the disk) is a record of
  oracles, \<open>env\<close>, over which every theorem is universally quantified. The code between two
  \<^verbatim>\<open>await\<close>s runs without interruption (asyncio is cooperative), so each such segment is one
  function of the model.
\<close>

subsection \<open>Data\<close>

datatype py_error = ValueError | TypeError | AttributeError

datatype refresh_mode = Pull | Pagination | Mode_none

record history_entry =
  filename :: string
  sha1 :: string
  saved_at :: string

type_synonym history = "(string \<times> history_entry) list"

text \<open>
  \<^verbatim>\<open>urllib.robotparser.RobotFileParser\<close>, as far as \<^verbatim>\<open>can_fetch\<close> reads it: the two
  flags that \<^verbatim>\<open>read\<close> sets on an HTTP error, \<^verbatim>\<open>last_checked\<close> (set by \<^verbatim>\<open>parse\<close>; here
  whether it is non-zero), and the verdict of the parsed rules for the agent \<^verbatim>\<open>*\<close>.
\<close>

record robot_file_parser =
  disallow_all :: bool
  allow_all :: bool
  last_checked :: bool
  rules :: "string \<Rightarrow> bool"

datatype robots_fetch = Fetch_raises | Http_error int | Robots_txt "string \<Rightarrow> bool"

datatype pdf_outcome = Pdf_saved | Pdf_timeout | Pdf_error

datatype json_doc = Json_invalid | Json_object history | Json_other

datatype fault = No_fault | Fail_open | Fail_write nat | Fail_replace

datatype log_line =
    Warn_robots string
  | Warn_write_json string
  | Warn_pdf string
  | Warn_read_json string
  | Info_robots_prohibits string
  | Info_exhausted

text \<open>
  A file system with inodes: \<^verbatim>\<open>open(p, "w")\<close> truncates the inode \<open>p\<close> names (or makes
  one), an open handle writes to its inode whatever the names do meanwhile, and
  \<^verbatim>\<open>os.replace\<close> moves a name to the inode of another in one step.
\<close>

record filesystem =
  names :: "string \<rightharpoonup> nat"
  inodes :: "nat \<Rightarrow> string"
  next_inode :: nat

record crawler =
  start_url :: string
  output_dir :: string
  concurrency :: int
  max_depth :: int
  timeout_ms :: int
  delay_s :: real
  prefixes :: "string list"
  refresh_mode :: refresh_mode
  obey_robots :: bool
  no_new_limit :: int
  history_file :: string
  history :: history
  processed_urls :: "string set"
  seen_urls :: "string set"
  per_domain_last :: "string \<Rightarrow> real"
  robots_cache :: "string \<rightharpoonup> robot_file_parser"
  deal_cookie :: bool

text \<open>
  The state of a run: the object \<^verbatim>\<open>self\<close>, the disk, the number of clock readings taken so
  far, the log, and two traces that only record what happened: every call of
  \<^verbatim>\<open>seen_urls.add\<close>, and every call of \<^verbatim>\<open>_process_page_task\<close> with its depth and what
  it returned (\<open>None\<close> when it raised).
\<close>

record state =
  self :: crawler
  disk :: filesystem
  clock_reads :: nat
  log :: "log_line list"
  trace_seen :: "string list"
  trace_dispatch :: "(string \<times> int \<times> string list option) list"

text \<open>
  A call of \<^verbatim>\<open>write_json_atomic\<close> in flight: where it stands, and what it was called with
  (the path, the temporary path made from it, the document, and what the disk will do to
  it).
\<close>

datatype pc = Pc_open | Pc_write nat | Pc_close nat | Pc_replace | Pc_cleanup | Pc_done

record writer =
  w_path :: string
  w_tmp :: string
  w_doc :: string
  w_fault :: fault
  w_pc :: pc
  w_failed :: bool

text \<open>
  The oracles. \<open>urldefrag\<close> and \<open>urlparse\<close> are the standard library's (\<open>None\<close> is their
  \<^verbatim>\<open>ValueError\<close>; \<open>urlparse\<close> gives the scheme and the netloc); \<open>clock k\<close> is the k-th
  reading of \<^verbatim>\<open>time.time()\<close>; \<open>page_hrefs\<close> is what \<^verbatim>\<open>eval_on_selector_all\<close> returns on the
  page of a URL (\<open>None\<close> when it raises) and \<open>portal_hrefs k\<close> the same on the portal page in
  round \<open>k\<close>; \<open>control_clicked k\<close> says whether a click on a next-page or load-more control
  succeeded in round \<open>k\<close>; \<open>gather_order\<close> is the order in which the event loop happens to
  run the tasks of a level. For the write of the history that follows the export of a URL,
  \<open>disk_fault\<close> is what the disk does to it, \<open>in_flight\<close> the calls of
  \<^verbatim>\<open>write_json_atomic\<close> that other tasks have in flight at that time, each where it stands,
  and \<open>write_schedule\<close> the order in which the steps of all these calls are taken.
\<close>

record env =
  urldefrag :: "string \<Rightarrow> string option"
  urlparse :: "string \<Rightarrow> (string \<times> string) option"
  clock :: "nat \<Rightarrow> real"
  robots_txt :: "string \<Rightarrow> robots_fetch"
  browser_ok :: bool
  new_page_ok :: "string \<Rightarrow> bool"
  page_hrefs :: "string \<Rightarrow> string list option"
  page_title_prefix :: "string \<Rightarrow> string"
  url_hash :: "string \<Rightarrow> string"
  utc_now :: "string \<Rightarrow> string"
  pdf_export :: "string \<Rightarrow> pdf_outcome"
  json_dumps :: "history \<Rightarrow> string"
  json_loads :: "string \<Rightarrow> json_doc"
  disk_fault :: "string \<Rightarrow> fault"
  in_flight :: "string \<Rightarrow> writer list"
  write_schedule :: "string \<Rightarrow> nat list"
  portal_hrefs :: "nat \<Rightarrow> string list option"
  control_clicked :: "nat \<Rightarrow> bool"
  gather_order :: "int \<Rightarrow> string list \<Rightarrow> nat list"

subsection \<open>URLs and the prefix allow-list\<close>

text \<open>\<^verbatim>\<open>normalize_url\<close>: the first component of \<^verbatim>\<open>urldefrag(url)\<close>.\<close>

definition normalize_url :: "env \<Rightarrow> string \<Rightarrow> string option" where
  "normalize_url e url = urldefrag e url"

text \<open>The loop of \<^verbatim>\<open>prefix_allowed\<close>: the first prefix that matches returns \<^verbatim>\<open>True\<close>.\<close>

fun starts_with_any :: "string list \<Rightarrow> string \<Rightarrow> bool" where
  "starts_with_any [] url = False"
| "starts_with_any (p # ps) url = (if prefix p url then True else starts_with_any ps url)"

definition prefix_allowed :: "crawler \<Rightarrow> string \<Rightarrow> bool" where
  "prefix_allowed c url = (if prefixes c = [] then True else starts_with_any (prefixes c) url)"

subsection \<open>Link extraction\<close>

definition mark_seen :: "string \<Rightarrow> state \<Rightarrow> state" where
  "mark_seen u st =
     st\<lparr>self := (self st)\<lparr>seen_urls := insert u (seen_urls (self st))\<rparr>,
        trace_seen := trace_seen st @ [u]\<rparr>"

text \<open>
  The filtering loop of \<^verbatim>\<open>_extract_links_from_page\<close>, with the list \<^verbatim>\<open>out\<close> as an
  accumulator. A \<^verbatim>\<open>ValueError\<close> of \<^verbatim>\<open>urldefrag\<close> leaves the loop: the result is \<open>None\<close>, and
  the links marked as seen before it stay marked.
\<close>

fun filter_links :: "env \<Rightarrow> string list \<Rightarrow> string list \<Rightarrow> state \<Rightarrow> string list option \<times> state" where
  "filter_links e [] out st = (Some out, st)"
| "filter_links e (h # hs) out st =
     (if h = [] then filter_links e hs out st
      else case normalize_url e h of
        None \<Rightarrow> (None, st)
      | Some n \<Rightarrow>
          if prefixes (self st) \<noteq> [] \<and> \<not> prefix_allowed (self st) n then filter_links e hs out st
          else if n \<in> seen_urls (self st) then filter_links e hs out st
          else if n \<in> processed_urls (self st) then filter_links e hs out st
          else filter_links e hs (out @ [n]) (mark_seen n st))"

text \<open>
  \<^verbatim>\<open>_extract_links_from_page\<close>: the argument is what \<^verbatim>\<open>eval_on_selector_all\<close> gave. Every
  exception is caught and the empty list returned.
\<close>

definition extract_links :: "env \<Rightarrow> string list option \<Rightarrow> state \<Rightarrow> string list \<times> state" where
  "extract_links e hrefs st =
     (case hrefs of
        None \<Rightarrow> ([], st)
      | Some hs \<Rightarrow>
          (case filter_links e hs [] st of
             (None, st') \<Rightarrow> ([], st')
           | (Some out, st') \<Rightarrow> (out, st')))"

subsection \<open>The history file\<close>

definition fs_read :: "filesystem \<Rightarrow> string \<Rightarrow> string option" where
  "fs_read fs p = map_option (inodes fs) (names fs p)"

definition fs_open_w :: "string \<Rightarrow> filesystem \<Rightarrow> nat \<times> filesystem" where
  "fs_open_w p fs =
     (case names fs p of
        Some i \<Rightarrow> (i, fs\<lparr>inodes := (inodes fs)(i := [])\<rparr>)
      | None \<Rightarrow>
          (next_inode fs,
           fs\<lparr>names := (names fs)(p \<mapsto> next_inode fs),
              inodes := (inodes fs)(next_inode fs := []),
              next_inode := Suc (next_inode fs)\<rparr>))"

text \<open>A handle opened with \<^verbatim>\<open>"w"\<close> writes from offset 0 of its inode.\<close>

definition fs_write :: "nat \<Rightarrow> string \<Rightarrow> filesystem \<Rightarrow> filesystem" where
  "fs_write i s fs = fs\<lparr>inodes := (inodes fs)(i := s @ drop (length s) (inodes fs i))\<rparr>"

text \<open>\<^verbatim>\<open>os.replace\<close>: \<open>None\<close> is its \<^verbatim>\<open>FileNotFoundError\<close>.\<close>

definition fs_replace :: "string \<Rightarrow> string \<Rightarrow> filesystem \<Rightarrow> filesystem option" where
  "fs_replace src dst fs =
     (case names fs src of
        None \<Rightarrow> None
      | Some i \<Rightarrow> Some (fs\<lparr>names := ((names fs)(dst \<mapsto> i))(src := None)\<rparr>))"

definition fs_unlink :: "string \<Rightarrow> filesystem \<Rightarrow> filesystem" where
  "fs_unlink p fs = fs\<lparr>names := (names fs)(p := None)\<rparr>"

text \<open>
  A path is held as the string of its \<^verbatim>\<open>Path\<close> object. \<open>path_str p\<close> is
  \<^verbatim>\<open>str(Path(p))\<close> on a POSIX system: the components between slashes without the empty
  ones and without the components \<^verbatim>\<open>.\<close>, after one leading slash if the string has one
  (two if it has exactly two), and \<^verbatim>\<open>.\<close> if nothing is left. \<open>path_name\<close> is the attribute
  \<^verbatim>\<open>name\<close>, the last component, empty when there is none.
\<close>

fun split_sep :: "string \<Rightarrow> string \<Rightarrow> string list" where
  "split_sep cur [] = [cur]"
| "split_sep cur (ch # s) =
     (if ch = CHR ''/'' then cur # split_sep [] s else split_sep (cur @ [ch]) s)"

definition path_parts :: "string \<Rightarrow> string list" where
  "path_parts p = filter (\<lambda>c. c \<noteq> [] \<and> c \<noteq> ''.'') (split_sep [] p)"

definition path_root :: "string \<Rightarrow> string" where
  "path_root p =
     (if take 2 p = ''//'' \<and> take 3 p \<noteq> ''///'' then ''//''
      else if take 1 p = ''/'' then ''/'' else [])"

fun join_sep :: "string list \<Rightarrow> string" where
  "join_sep [] = []"
| "join_sep [c] = c"
| "join_sep (c # d # cs) = c @ ''/'' @ join_sep (d # cs)"

definition path_str :: "string \<Rightarrow> string" where
  "path_str p =
     (if path_parts p = [] \<and> path_root p = [] then ''.''
      else path_root p @ join_sep (path_parts p))"

definition path_name :: "string \<Rightarrow> string" where
  "path_name p = (if path_parts p = [] then [] else last (path_parts p))"

text \<open>
  \<^verbatim>\<open>path.with_suffix(path.suffix + ".tmp")\<close>: the path with \<^verbatim>\<open>.tmp\<close> appended to its
  name; \<open>None\<close> is the \<^verbatim>\<open>ValueError\<close> that \<^verbatim>\<open>with_suffix\<close> raises for a path with
  an empty name.
\<close>

definition tmp_path :: "string \<Rightarrow> string option" where
  "tmp_path p = (if path_name p = [] then None else Some (p @ ''.tmp''))"

text \<open>
  \<^verbatim>\<open>write_json_atomic\<close> makes the temporary path, and then, inside its \<^verbatim>\<open>try\<close>, awaits
  the opening of the temporary file, the write and the closing (each runs in a worker thread
  of aiofiles), and calls \<^verbatim>\<open>os.replace\<close> when the task is resumed after the closing; the
  exception handler removes the temporary file. One step of a writer is one of these
  operations. The data reach the file at the write.
\<close>

definition writer_start :: "string \<Rightarrow> string \<Rightarrow> string \<Rightarrow> fault \<Rightarrow> writer" where
  "writer_start p tmp doc f =
     \<lparr>w_path = p, w_tmp = tmp, w_doc = doc, w_fault = f, w_pc = Pc_open, w_failed = False\<rparr>"

definition wja_raise :: "writer \<Rightarrow> writer" where
  "wja_raise w = w\<lparr>w_pc := Pc_cleanup, w_failed := True\<rparr>"

definition wja_step :: "writer \<Rightarrow> filesystem \<Rightarrow> writer \<times> filesystem" where
  "wja_step w fs =
     (case w_pc w of
        Pc_open \<Rightarrow>
          (if w_fault w = Fail_open then (wja_raise w, fs)
           else case fs_open_w (w_tmp w) fs of
                  (i, fs') \<Rightarrow> (w\<lparr>w_pc := Pc_write i\<rparr>, fs'))
      | Pc_write i \<Rightarrow>
          (case w_fault w of
             Fail_write n \<Rightarrow> (wja_raise w, fs_write i (take n (w_doc w)) fs)
           | _ \<Rightarrow> (w\<lparr>w_pc := Pc_close i\<rparr>, fs_write i (w_doc w) fs))
      | Pc_close i \<Rightarrow> (w\<lparr>w_pc := Pc_replace\<rparr>, fs)
      | Pc_replace \<Rightarrow>
          (if w_fault w = Fail_replace then (wja_raise w, fs)
           else case fs_replace (w_tmp w) (w_path w) fs of
                  None \<Rightarrow> (wja_raise w, fs)
                | Some fs' \<Rightarrow> (w\<lparr>w_pc := Pc_done\<rparr>, fs'))
      | Pc_cleanup \<Rightarrow> (w\<lparr>w_pc := Pc_done\<rparr>, fs_unlink (w_tmp w) fs)
      | Pc_done \<Rightarrow> (w, fs))"

text \<open>The first \<open>n\<close> steps of one writer, nothing else touching the disk.\<close>

fun wja_steps :: "nat \<Rightarrow> writer \<Rightarrow> filesystem \<Rightarrow> writer \<times> filesystem" where
  "wja_steps 0 w fs = (w, fs)"
| "wja_steps (Suc n) w fs = (case wja_step w fs of (w', fs') \<Rightarrow> wja_steps n w' fs')"

text \<open>
  Several calls in flight at once, as the tasks of one level have them: the schedule names
  the writer that takes the next step.
\<close>

fun interleave :: "nat list \<Rightarrow> writer list \<Rightarrow> filesystem \<Rightarrow> writer list \<times> filesystem" where
  "interleave [] ws fs = (ws, fs)"
| "interleave (i # sched) ws fs =
     (if i < length ws
      then case wja_step (ws ! i) fs of (w', fs') \<Rightarrow> interleave sched (ws[i := w']) fs'
      else interleave sched ws fs)"

text \<open>
  A whole call of \<^verbatim>\<open>write_json_atomic\<close>, with the calls that other tasks have in flight
  meanwhile. Without a temporary path the \<^verbatim>\<open>ValueError\<close> leaves the function (\<open>Inl\<close>):
  that line stands before the \<^verbatim>\<open>try\<close>. Otherwise the call is writer 0 of the schedule;
  it returns when its own steps are done, so what the schedule has left of them is taken at
  the end (five steps reach the end on every path). It returns whether the warning was
  logged.
\<close>

definition write_json_atomic ::
  "writer list \<Rightarrow> nat list \<Rightarrow> string \<Rightarrow> string \<Rightarrow> fault \<Rightarrow> filesystem
   \<Rightarrow> py_error + bool \<times> filesystem" where
  "write_json_atomic others sched p doc f fs =
     (case tmp_path p of
        None \<Rightarrow> Inl ValueError
      | Some tmp \<Rightarrow>
          (case interleave sched (writer_start p tmp doc f # others) fs of
             (ws, fs1) \<Rightarrow>
               (case wja_steps 5 (hd ws) fs1 of (w, fs2) \<Rightarrow> Inr (w_failed w, fs2))))"

text \<open>\<^verbatim>\<open>read_json\<close> and \<^verbatim>\<open>load_history\<close>; a document that is no object has no \<^verbatim>\<open>keys\<close>.\<close>

definition read_json :: "env \<Rightarrow> string \<Rightarrow> state \<Rightarrow> json_doc \<times> state" where
  "read_json e p st =
     (case fs_read (disk st) p of
        None \<Rightarrow> (Json_object [], st)
      | Some content \<Rightarrow>
          (case json_loads e content of
             Json_invalid \<Rightarrow> (Json_object [], st\<lparr>log := log st @ [Warn_read_json p]\<rparr>)
           | d \<Rightarrow> (d, st)))"

definition load_history :: "env \<Rightarrow> state \<Rightarrow> py_error + state" where
  "load_history e st =
     (case read_json e (history_file (self st)) st of
        (Json_object h, st') \<Rightarrow>
          Inr (st'\<lparr>self := (self st')\<lparr>history := h, processed_urls := set (map fst h)\<rparr>\<rparr>)
      | (_, st') \<Rightarrow> Inl AttributeError)"

text \<open>
  \<^verbatim>\<open>save_history_entry\<close>: the entry is put into the history, the history is written, and
  the URL is added to \<open>processed_urls\<close>. An exception of \<^verbatim>\<open>write_json_atomic\<close> leaves the
  method after the first of these (the first component of the result is the exception).
\<close>

definition save_history_entry ::
  "env \<Rightarrow> string \<Rightarrow> string \<Rightarrow> string \<Rightarrow> state \<Rightarrow> py_error option \<times> state" where
  "save_history_entry e url fname h st =
     (let c1 = (self st)\<lparr>history :=
                  AList.update url \<lparr>filename = fname, sha1 = h, saved_at = utc_now e url\<rparr>
                    (history (self st))\<rparr>
      in case write_json_atomic (in_flight e url) (write_schedule e url) (history_file c1)
                (json_dumps e (history c1)) (disk_fault e url) (disk st) of
           Inl err \<Rightarrow> (Some err, st\<lparr>self := c1\<rparr>)
         | Inr (failed, d) \<Rightarrow>
             (None,
              st\<lparr>self := c1\<lparr>processed_urls := insert url (processed_urls c1)\<rparr>,
                 disk := d,
                 log := (if failed then log st @ [Warn_write_json (history_file c1)]
                         else log st)\<rparr>))"

subsection \<open>Robots\<close>

definition rp_new :: robot_file_parser where
  "rp_new = \<lparr>disallow_all = False, allow_all = False, last_checked = False, rules = (\<lambda>url. True)\<rparr>"

text \<open>
  \<^verbatim>\<open>RobotFileParser.read\<close>: an HTTP error is handled inside (401 and 403 disallow all,
  another 4xx allows all, anything else sets nothing); any other failure of the fetch or of
  the decoding is raised (\<open>None\<close>) before \<^verbatim>\<open>parse\<close> has set \<^verbatim>\<open>last_checked\<close>.
\<close>

definition rp_read :: "robots_fetch \<Rightarrow> robot_file_parser \<Rightarrow> robot_file_parser option" where
  "rp_read f rp =
     (case f of
        Fetch_raises \<Rightarrow> None
      | Http_error code \<Rightarrow>
          Some (if code = 401 \<or> code = 403 then rp\<lparr>disallow_all := True\<rparr>
                else if 400 \<le> code \<and> code < 500 then rp\<lparr>allow_all := True\<rparr>
                else rp)
      | Robots_txt r \<Rightarrow> Some (rp\<lparr>last_checked := True, rules := r\<rparr>))"

text \<open>
  \<^verbatim>\<open>RobotFileParser.can_fetch\<close>: "until the robots.txt file has been read or found not to
  exist, we must assume that no url is allowable".
\<close>

definition rp_can_fetch :: "robot_file_parser \<Rightarrow> string \<Rightarrow> bool" where
  "rp_can_fetch rp url =
     (if disallow_all rp then False
      else if allow_all rp then True
      else if \<not> last_checked rp then False
      else rules rp url)"

definition cache_robots :: "string \<Rightarrow> robot_file_parser \<Rightarrow> state \<Rightarrow> state" where
  "cache_robots origin rp st =
     st\<lparr>self := (self st)\<lparr>robots_cache := (robots_cache (self st))(origin \<mapsto> rp)\<rparr>\<rparr>"

text \<open>\<^verbatim>\<open>can_fetch_robots\<close>; the first component is \<open>None\<close> when \<^verbatim>\<open>urlparse\<close> raises.\<close>

definition can_fetch_robots :: "env \<Rightarrow> string \<Rightarrow> state \<Rightarrow> bool option \<times> state" where
  "can_fetch_robots e url st =
     (if \<not> obey_robots (self st) then (Some True, st)
      else case urlparse e url of
        None \<Rightarrow> (None, st)
      | Some (scheme, netloc) \<Rightarrow>
          (let origin = scheme @ ''://'' @ netloc in
           case robots_cache (self st) origin of
             Some rp \<Rightarrow> (Some (rp_can_fetch rp url), st)
           | None \<Rightarrow>
               (case rp_read (robots_txt e origin) rp_new of
                  None \<Rightarrow>
                    (Some True, (cache_robots origin rp_new st)\<lparr>log := log st @ [Warn_robots origin]\<rparr>)
                | Some rp \<Rightarrow> (Some (rp_can_fetch rp url), cache_robots origin rp st))))"

subsection \<open>The per-domain delay\<close>

text \<open>
  \<^verbatim>\<open>domain_delay_wait\<close> has two segments. The first reads the clock and the last dispatch
  time of the domain and decides whether to sleep, and for how long; the second, after the
  \<^verbatim>\<open>await asyncio.sleep\<close> if there was one, stores the time of a new reading of the clock.
\<close>

definition sleep_needed :: "crawler \<Rightarrow> string \<Rightarrow> real \<Rightarrow> real option" where
  "sleep_needed c domain now =
     (let last = per_domain_last c domain; elapsed = now - last
      in if elapsed < delay_s c then Some (delay_s c - elapsed) else None)"

definition stamp_domain :: "string \<Rightarrow> real \<Rightarrow> crawler \<Rightarrow> crawler" where
  "stamp_domain domain t c = c\<lparr>per_domain_last := (per_domain_last c)(domain := t)\<rparr>"

text \<open>
  A call that no other task interleaves with. The sleep only lets time pass: what the clock
  shows afterwards is the oracle's next reading. \<open>None\<close> when \<^verbatim>\<open>urlparse\<close> raises.
\<close>

definition domain_delay_wait :: "env \<Rightarrow> string \<Rightarrow> state \<Rightarrow> state option" where
  "domain_delay_wait e url st =
     (case urlparse e url of
        None \<Rightarrow> None
      | Some (scheme, domain) \<Rightarrow>
          Some (st\<lparr>self := stamp_domain domain (clock e (Suc (clock_reads st))) (self st),
                   clock_reads := clock_reads st + 2\<rparr>))"

text \<open>
  The tasks of a level wait concurrently. A task enters at some time (it takes a slot of the
  semaphore and runs the first segment), wakes at some time not before its sleep is over
  (the second segment), and leaves when its page is done (it frees the slot). An event that
  cannot happen in the state it meets makes the whole sequence \<open>None\<close>.
\<close>

datatype waiter = Idle | Asleep real | Released real | Left real

datatype event = Enter nat real | Wake nat real | Leave nat real

record lobby =
  lb_self :: crawler
  lb_free :: int
  lb_now :: real
  lb_waiters :: "waiter list"

definition event_time :: "event \<Rightarrow> real" where
  "event_time ev = (case ev of Enter i t \<Rightarrow> t | Wake i t \<Rightarrow> t | Leave i t \<Rightarrow> t)"

definition lobby_start :: "crawler \<Rightarrow> nat \<Rightarrow> real \<Rightarrow> lobby" where
  "lobby_start c n t =
     \<lparr>lb_self = c, lb_free = concurrency c, lb_now = t, lb_waiters = replicate n Idle\<rparr>"

definition lobby_step :: "(string \<Rightarrow> string) \<Rightarrow> string list \<Rightarrow> event \<Rightarrow> lobby \<Rightarrow> lobby option" where
  "lobby_step netloc urls ev lb =
     (if event_time ev < lb_now lb then None
      else case ev of
        Enter i t \<Rightarrow>
          (if i < length urls \<and> i < length (lb_waiters lb) \<and> lb_waiters lb ! i = Idle \<and> 0 < lb_free lb
           then (case sleep_needed (lb_self lb) (netloc (urls ! i)) t of
                   Some d \<Rightarrow>
                     Some (lb\<lparr>lb_free := lb_free lb - 1, lb_now := t,
                              lb_waiters := (lb_waiters lb)[i := Asleep (t + d)]\<rparr>)
                 | None \<Rightarrow>
                     Some (lb\<lparr>lb_self := stamp_domain (netloc (urls ! i)) t (lb_self lb),
                              lb_free := lb_free lb - 1, lb_now := t,
                              lb_waiters := (lb_waiters lb)[i := Released t]\<rparr>))
           else None)
      | Wake i t \<Rightarrow>
          (if i < length urls \<and> i < length (lb_waiters lb)
           then (case lb_waiters lb ! i of
                   Asleep w \<Rightarrow>
                     (if w \<le> t
                      then Some (lb\<lparr>lb_self := stamp_domain (netloc (urls ! i)) t (lb_self lb),
                                    lb_now := t,
                                    lb_waiters := (lb_waiters lb)[i := Released t]\<rparr>)
                      else None)
                 | _ \<Rightarrow> None)
           else None)
      | Leave i t \<Rightarrow>
          (if i < length (lb_waiters lb)
           then (case lb_waiters lb ! i of
                   Released r \<Rightarrow>
                     Some (lb\<lparr>lb_free := lb_free lb + 1, lb_now := t,
                              lb_waiters := (lb_waiters lb)[i := Left r]\<rparr>)
                 | _ \<Rightarrow> None)
           else None))"

fun lobby_run :: "(string \<Rightarrow> string) \<Rightarrow> string list \<Rightarrow> event list \<Rightarrow> lobby \<Rightarrow> lobby option" where
  "lobby_run netloc urls [] lb = Some lb"
| "lobby_run netloc urls (ev # evs) lb =
     (case lobby_step netloc urls ev lb of
        None \<Rightarrow> None
      | Some lb' \<Rightarrow> lobby_run netloc urls evs lb')"

text \<open>The time at which the wait let a task go, if it has.\<close>

definition release_time :: "waiter \<Rightarrow> real option" where
  "release_time w = (case w of Released r \<Rightarrow> Some r | Left r \<Rightarrow> Some r | _ \<Rightarrow> None)"

subsection \<open>Processing a page\<close>

text \<open>
  \<^verbatim>\<open>_save_pdf_from_page\<close>: the file name is the sanitised title, an underscore, the SHA-1 of
  the URL and \<^verbatim>\<open>.pdf\<close>. A timeout or an error of the export is raised (\<open>Inl\<close>) before
  \<^verbatim>\<open>save_history_entry\<close> is reached; an exception of \<^verbatim>\<open>save_history_entry\<close> is passed
  on.
\<close>

datatype save_error = Export_failed pdf_outcome | Record_failed py_error

definition save_pdf_from_page :: "env \<Rightarrow> string \<Rightarrow> state \<Rightarrow> (save_error + string) \<times> state" where
  "save_pdf_from_page e url st =
     (let h = url_hash e url;
          fname = page_title_prefix e url @ ''_'' @ h @ ''.pdf'';
          path = output_dir (self st) @ ''/'' @ fname
      in case pdf_export e url of
           Pdf_saved \<Rightarrow>
             (case save_history_entry e url fname h st of
                (Some err, st') \<Rightarrow> (Inl (Record_failed err), st')
              | (None, st') \<Rightarrow> (Inr path, st'))
         | Pdf_timeout \<Rightarrow> (Inl (Export_failed Pdf_timeout), st\<lparr>log := log st @ [Warn_pdf url]\<rparr>)
         | Pdf_error \<Rightarrow> (Inl (Export_failed Pdf_error), st\<lparr>log := log st @ [Warn_pdf url]\<rparr>))"

text \<open>
  \<^verbatim>\<open>_process_page_task\<close>. The result is \<open>None\<close> when the task raises: \<^verbatim>\<open>urlparse\<close> in the
  robots check or in the wait, or \<^verbatim>\<open>browser.new_page\<close>. A failure of \<^verbatim>\<open>goto\<close> is logged
  and the task goes on; the cookie helper changes nothing of the state; an exception of
  \<^verbatim>\<open>_save_pdf_from_page\<close> is caught.
\<close>

definition process_page_task :: "env \<Rightarrow> string \<Rightarrow> int \<Rightarrow> state \<Rightarrow> string list option \<times> state" where
  "process_page_task e url depth st =
     (case can_fetch_robots e url st of
        (None, st1) \<Rightarrow> (None, st1)
      | (Some False, st1) \<Rightarrow> (Some [], st1\<lparr>log := log st1 @ [Info_robots_prohibits url]\<rparr>)
      | (Some True, st1) \<Rightarrow>
          (case domain_delay_wait e url st1 of
             None \<Rightarrow> (None, st1)
           | Some st2 \<Rightarrow>
               if \<not> new_page_ok e url then (None, st2)
               else
                 (let st3 = snd (save_pdf_from_page e url st2)
                  in if depth < max_depth (self st3)
                     then (case extract_links e (page_hrefs e url) st3 of
                             (links, st4) \<Rightarrow> (Some links, st4))
                     else (Some [], st3))))"

subsection \<open>The levels\<close>

text \<open>
  \<^verbatim>\<open>asyncio.gather\<close> over the tasks of a level. The segments of a task that touch the
  shared sets run without interruption, and the tasks run in the order the event loop gives
  them; \<open>gather\<close> returns the results in the order of the level. The model runs the tasks
  one after the other in the order of the oracle (any permutation of the positions of the
  level; the order of the level when the oracle gives none).
\<close>

fun run_tasks :: "env \<Rightarrow> int \<Rightarrow> (nat \<times> string) list \<Rightarrow> state \<Rightarrow> (nat \<times> string list option) list \<times> state" where
  "run_tasks e depth [] st = ([], st)"
| "run_tasks e depth ((i, u) # ts) st =
     (case process_page_task e u depth st of
        (r, st1) \<Rightarrow>
          (case run_tasks e depth ts (st1\<lparr>trace_dispatch := trace_dispatch st1 @ [(u, depth, r)]\<rparr>) of
             (rs, st2) \<Rightarrow> ((i, r) # rs, st2)))"

definition task_order :: "env \<Rightarrow> int \<Rightarrow> string list \<Rightarrow> nat list" where
  "task_order e depth level =
     (let p = gather_order e depth level
      in if sort p = [0..<length level] then p else [0..<length level])"

definition links_of :: "string list option \<Rightarrow> string list" where
  "links_of r = (case r of None \<Rightarrow> [] | Some ls \<Rightarrow> ls)"

definition process_level :: "env \<Rightarrow> string list \<Rightarrow> int \<Rightarrow> state \<Rightarrow> string list \<times> state" where
  "process_level e level depth st =
     (case run_tasks e depth (map (\<lambda>i. (i, level ! i)) (task_order e depth level)) st of
        (rs, st') \<Rightarrow> (concat (map (links_of \<circ> snd) (sort_key fst rs)), st'))"

text \<open>
  The options of the constructor, as they stand in \<^verbatim>\<open>self\<close>: the crawler with the
  attributes that a run assigns blanked out. No method assigns any of the others.
\<close>

definition config_of :: "crawler \<Rightarrow> crawler" where
  "config_of c =
     c\<lparr>history := [], processed_urls := {}, seen_urls := {},
       per_domain_last := (\<lambda>d. 0), robots_cache := Map.empty\<rparr>"

lemma config_of_fields:
  "max_depth (config_of c) = max_depth c"
  "concurrency (config_of c) = concurrency c"
  "timeout_ms (config_of c) = timeout_ms c"
  "delay_s (config_of c) = delay_s c"
  "no_new_limit (config_of c) = no_new_limit c"
  "prefixes (config_of c) = prefixes c"
  "refresh_mode (config_of c) = refresh_mode c"
  "obey_robots (config_of c) = obey_robots c"
  "history_file (config_of c) = history_file c"
  "start_url (config_of c) = start_url c"
  by (simp_all add: config_of_def)

lemma config_filter_links:
  "config_of (self (snd (filter_links e hs out st))) = config_of (self st)"
  by (induction e hs out st rule: filter_links.induct)
     (auto simp: mark_seen_def config_of_def split: option.splits)

lemma config_extract_links:
  "config_of (self (snd (extract_links e hrefs st))) = config_of (self st)"
proof (cases hrefs)
  case None
  then show ?thesis by (simp add: extract_links_def)
next
  case (Some hs)
  obtain r st' where f: "filter_links e hs [] st = (r, st')"
    by (cases "filter_links e hs [] st")
  from config_filter_links [of e hs "[]" st] f
  have "config_of (self st') = config_of (self st)" by simp
  with Some f show ?thesis
    by (cases r) (simp_all add: extract_links_def)
qed

lemma config_save_history_entry:
  "config_of (self (snd (save_history_entry e url fname h st))) = config_of (self st)"
  by (simp add: save_history_entry_def Let_def config_of_def split: prod.splits sum.splits)

lemma config_save_pdf:
  "config_of (self (snd (save_pdf_from_page e url st))) = config_of (self st)"
  using config_save_history_entry
    [of e url "page_title_prefix e url @ ''_'' @ url_hash e url @ ''.pdf''" "url_hash e url" st]
  by (cases "pdf_export e url")
     (auto simp add: save_pdf_from_page_def Let_def split: prod.splits option.splits)

lemma config_can_fetch_robots:
  "config_of (self (snd (can_fetch_robots e url st))) = config_of (self st)"
  by (simp add: can_fetch_robots_def cache_robots_def Let_def config_of_def
           split: option.splits prod.splits)

lemma config_domain_delay_wait:
  "domain_delay_wait e url st = Some st' \<Longrightarrow> config_of (self st') = config_of (self st)"
  by (auto simp: domain_delay_wait_def stamp_domain_def config_of_def
           split: option.splits prod.splits)

lemma config_process_page_task:
  "config_of (self (snd (process_page_task e url depth st))) = config_of (self st)"
proof -
  obtain b st1 where r: "can_fetch_robots e url st = (b, st1)"
    by (cases "can_fetch_robots e url st")
  from config_can_fetch_robots [of e url st] r
  have c1: "config_of (self st1) = config_of (self st)" by simp
  show ?thesis
  proof (cases b)
    case None
    with r c1 show ?thesis by (simp add: process_page_task_def)
  next
    case (Some ok)
    show ?thesis
    proof (cases ok)
      case False
      with Some r c1 show ?thesis by (simp add: process_page_task_def config_of_def)
    next
      case True
      show ?thesis
      proof (cases "domain_delay_wait e url st1")
        case None
        with True Some r c1 show ?thesis by (simp add: process_page_task_def)
      next
        case (Some st2)
        from config_domain_delay_wait [OF Some] c1
        have c2: "config_of (self st2) = config_of (self st)" by simp
        have c3: "config_of (self (snd (save_pdf_from_page e url st2))) = config_of (self st)"
          using config_save_pdf [of e url st2] c2 by simp
        have c4: "config_of (self (snd (extract_links e (page_hrefs e url)
                     (snd (save_pdf_from_page e url st2))))) = config_of (self st)"
          using config_extract_links [of e "page_hrefs e url" "snd (save_pdf_from_page e url st2)"] c3
          by simp
        from True \<open>b = Some ok\<close> r Some c2 c3 c4 show ?thesis
          by (auto simp add: process_page_task_def Let_def split: prod.splits)
      qed
    qed
  qed
qed

lemma config_run_tasks:
  "config_of (self (snd (run_tasks e depth ts st))) = config_of (self st)"
proof (induction ts arbitrary: st)
  case Nil
  then show ?case by simp
next
  case (Cons t ts)
  obtain i u where t: "t = (i, u)" by (cases t)
  obtain r st1 where p: "process_page_task e u depth st = (r, st1)"
    by (cases "process_page_task e u depth st")
  from config_process_page_task [of e u depth st] p
  have c1: "config_of (self st1) = config_of (self st)" by simp
  have "config_of (self (snd (run_tasks e depth ts
           (st1\<lparr>trace_dispatch := trace_dispatch st1 @ [(u, depth, r)]\<rparr>)))) = config_of (self st1)"
    using Cons.IH [of "st1\<lparr>trace_dispatch := trace_dispatch st1 @ [(u, depth, r)]\<rparr>"] by simp
  with t p c1 show ?case by (auto split: prod.splits)
qed

lemma config_process_level:
  "config_of (self (snd (process_level e level depth st))) = config_of (self st)"
  using config_run_tasks [of e depth "map (\<lambda>i. (i, level ! i)) (task_order e depth level)" st]
  by (auto simp add: process_level_def split: prod.splits)

text \<open>The inner loop of \<^verbatim>\<open>run\<close>.\<close>

function bfs_levels :: "env \<Rightarrow> string list \<Rightarrow> int \<Rightarrow> state \<Rightarrow> state" where
  "bfs_levels e level depth st =
     (if level \<noteq> [] \<and> depth \<le> max_depth (self st)
      then (case process_level e level depth st of
              (next_level, st') \<Rightarrow> bfs_levels e next_level (depth + 1) st')
      else st)"
  by pat_completeness auto
termination
proof (relation "measure (\<lambda>(e, level, depth, st). nat (max_depth (self st) + 1 - depth))")
  show "wf (measure (\<lambda>(e, level, depth, st). nat (max_depth (self st) + 1 - depth)))"
    by simp
next
  fix e :: env and level :: "string list" and depth :: int and st :: state
    and next_level :: "string list" and st' :: state
  assume run: "level \<noteq> [] \<and> depth \<le> max_depth (self st)"
    and split: "(next_level, st') = process_level e level depth st"
  from config_process_level [of e level depth st] split
  have "config_of (self st') = config_of (self st)"
    by (metis snd_conv)
  then have "max_depth (self st') = max_depth (self st)"
    by (metis config_of_fields(1))
  with run show "((e, next_level, depth + 1, st'), (e, level, depth, st))
      \<in> measure (\<lambda>(e, level, depth, st). nat (max_depth (self st) + 1 - depth))"
    by simp
qed

declare bfs_levels.simps [simp del]

subsection \<open>The portal loop\<close>

text \<open>
  \<^verbatim>\<open>_refresh_page\<close> in round \<open>k\<close>: in the modes \<^verbatim>\<open>pagination\<close> and \<^verbatim>\<open>pull\<close> it returns
  \<^verbatim>\<open>True\<close> when a click on one of the candidate controls succeeds and \<^verbatim>\<open>False\<close> otherwise; in
  the third mode it scrolls and returns \<^verbatim>\<open>True\<close>.
\<close>

definition refresh_page :: "env \<Rightarrow> nat \<Rightarrow> crawler \<Rightarrow> bool" where
  "refresh_page e k c =
     (case refresh_mode c of
        Pagination \<Rightarrow> control_clicked e k
      | Pull \<Rightarrow> control_clicked e k
      | Mode_none \<Rightarrow> True)"

datatype outcome = Exhausted | Still_running | Aborted

text \<open>
  The \<^verbatim>\<open>while True\<close> of \<^verbatim>\<open>run\<close>, with its two local counters as arguments. The loop has
  no bound of its own, so the model counts rounds: \<open>run_loop n\<close> runs at most \<open>n\<close> rounds and
  says \<open>Still_running\<close> when the loop has not left by then. \<open>Exhausted\<close> is the \<^verbatim>\<open>break\<close>.
  After a batch the page is refreshed once more and the loop goes on whatever the answer.
\<close>

fun run_loop :: "nat \<Rightarrow> env \<Rightarrow> nat \<Rightarrow> int \<Rightarrow> state \<Rightarrow> outcome \<times> state" where
  "run_loop 0 e iteration consecutive_no_new st = (Still_running, st)"
| "run_loop (Suc n) e iteration consecutive_no_new st =
     (let k = iteration + 1 in
      case extract_links e (portal_hrefs e k) st of
        (links, st1) \<Rightarrow>
          if links = [] then
            (if refresh_page e k (self st1) then run_loop n e k 0 st1
             else if consecutive_no_new + 1 \<ge> no_new_limit (self st1)
                  then (Exhausted, st1\<lparr>log := log st1 @ [Info_exhausted]\<rparr>)
                  else run_loop n e k (consecutive_no_new + 1) st1)
          else
            (let st2 = bfs_levels e links 1 st1
             in if refresh_page e k (self st2) then run_loop n e k 0 st2
                else run_loop n e k 0 st2))"

text \<open>
  \<^verbatim>\<open>run\<close>: the history is loaded, the browser started and the portal opened (a failure of
  either ends the run with an exception), the portal marked as seen, and the loop entered.
\<close>

definition run :: "nat \<Rightarrow> env \<Rightarrow> state \<Rightarrow> outcome \<times> state" where
  "run n e st =
     (case load_history e st of
        Inl err \<Rightarrow> (Aborted, st)
      | Inr st1 \<Rightarrow>
          if \<not> browser_ok e then (Aborted, st1)
          else run_loop n e 0 0 (mark_seen (start_url (self st1)) st1))"

subsection \<open>The constructor\<close>

text \<open>
  The option \<^verbatim>\<open>prefixes\<close> as a configuration file can give it: nothing, one string, or a
  list of strings.
\<close>

datatype prefixes_arg = No_prefixes | One_prefix string | Prefix_list "string list"

definition lower_char :: "char \<Rightarrow> char" where
  "lower_char ch =
     (if 65 \<le> (of_char ch :: nat) \<and> (of_char ch :: nat) \<le> 90
      then char_of ((of_char ch :: nat) + 32) else ch)"

definition parse_refresh_mode :: "string \<Rightarrow> refresh_mode" where
  "parse_refresh_mode s =
     (let m = (if s = [] then ''none'' else map lower_char s)
      in if m = ''pull'' then Pull else if m = ''pagination'' then Pagination else Mode_none)"

text \<open>
  \<^verbatim>\<open>Crawler.__init__\<close>. It raises when \<^verbatim>\<open>urldefrag\<close> does, and when \<^verbatim>\<open>prefixes\<close> is
  \<^verbatim>\<open>None\<close> (which has no \<^verbatim>\<open>len\<close>); a single string becomes a list of one, except the empty
  string, which stays as it is and counts as no prefix.
\<close>

definition init ::
  "env \<Rightarrow> string \<Rightarrow> string \<Rightarrow> string \<Rightarrow> int \<Rightarrow> int \<Rightarrow> int \<Rightarrow> real \<Rightarrow> string \<Rightarrow> int \<Rightarrow>
   prefixes_arg \<Rightarrow> bool \<Rightarrow> bool \<Rightarrow> py_error + crawler" where
  "init e a_start_url a_output_dir a_history_path a_concurrency a_max_depth a_timeout_ms a_delay_s
        a_refresh_mode a_no_new_limit a_prefixes a_obey_robots a_deal_cookie =
     (case normalize_url e a_start_url of
        None \<Rightarrow> Inl ValueError
      | Some u \<Rightarrow>
          (case a_prefixes of
             No_prefixes \<Rightarrow> Inl TypeError
           | _ \<Rightarrow>
               Inr \<lparr>start_url = u,
                    output_dir = a_output_dir,
                    concurrency = max 1 a_concurrency,
                    max_depth = max 1 a_max_depth,
                    timeout_ms = max 1000 a_timeout_ms,
                    delay_s = max 0 a_delay_s,
                    prefixes = (case a_prefixes of
                                  One_prefix p \<Rightarrow> (if p = [] then [] else [p])
                                | Prefix_list ps \<Rightarrow> ps
                                | No_prefixes \<Rightarrow> []),
                    refresh_mode = parse_refresh_mode a_refresh_mode,
                    obey_robots = a_obey_robots,
                    no_new_limit = max 1 a_no_new_limit,
                    history_file = path_str a_history_path,
                    history = [],
                    processed_urls = {},
                    seen_urls = {},
                    per_domain_last = (\<lambda>d. 0),
                    robots_cache = Map.empty,
                    deal_cookie = a_deal_cookie\<rparr>))"

text \<open>The state in which a run of a freshly made crawler starts, on a given disk.\<close>

definition start_state :: "crawler \<Rightarrow> filesystem \<Rightarrow> state" where
  "start_state c fs =
     \<lparr>self = c, disk = fs, clock_reads = 0, log = [], trace_seen = [], trace_dispatch = []\<rparr>"

section \<open>Concrete inputs\<close>

text \<open>
  A small world to evaluate the definitions in: URLs of the form \<^verbatim>\<open>scheme://netloc/path\<close>,
  for which \<^verbatim>\<open>urldefrag\<close> cuts at the first \<^verbatim>\<open>#\<close> and \<^verbatim>\<open>urlparse\<close> reads the scheme before
  the colon and the netloc after the two slashes; pages without links; exports, robots files
  and disk without failures. Each example changes the oracle it is about.
\<close>

definition strip_fragment :: "string \<Rightarrow> string" where
  "strip_fragment u = takeWhile (\<lambda>ch. ch \<noteq> CHR ''#'') u"

definition split_url :: "string \<Rightarrow> string \<times> string" where
  "split_url u =
     (takeWhile (\<lambda>ch. ch \<noteq> CHR '':'') u,
      takeWhile (\<lambda>ch. ch \<noteq> CHR ''/'' \<and> ch \<noteq> CHR ''?'' \<and> ch \<noteq> CHR ''#'')
        (drop 3 (dropWhile (\<lambda>ch. ch \<noteq> CHR '':'') u)))"

definition show_history :: "history \<Rightarrow> string" where
  "show_history h = ''{'' @ concat (map (\<lambda>(u, en). u @ '' -> '' @ filename en @ ''; '') h) @ ''}''"

definition plain_web :: env where
  "plain_web =
     \<lparr>urldefrag = (\<lambda>u. Some (strip_fragment u)),
      urlparse = (\<lambda>u. Some (split_url u)),
      clock = (\<lambda>k. real k),
      robots_txt = (\<lambda>origin. Robots_txt (\<lambda>u. True)),
      browser_ok = True,
      new_page_ok = (\<lambda>u. True),
      page_hrefs = (\<lambda>u. Some []),
      page_title_prefix = (\<lambda>u. ''page''),
      url_hash = (\<lambda>u. ''0f''),
      utc_now = (\<lambda>u. ''2024-01-01T00:00:00+00:00''),
      pdf_export = (\<lambda>u. Pdf_saved),
      json_dumps = show_history,
      json_loads = (\<lambda>s. Json_object []),
      disk_fault = (\<lambda>u. No_fault),
      in_flight = (\<lambda>u. []),
      write_schedule = (\<lambda>u. []),
      portal_hrefs = (\<lambda>k. Some []),
      control_clicked = (\<lambda>k. False),
      gather_order = (\<lambda>d level. [])\<rparr>"

definition empty_disk :: filesystem where
  "empty_disk = \<lparr>names = Map.empty, inodes = (\<lambda>i. []), next_inode = 0\<rparr>"

lemmas demo_defs =
  plain_web_def strip_fragment_def split_url_def show_history_def empty_disk_def start_state_def
  init_def normalize_url_def parse_refresh_mode_def lower_char_def Let_def
  path_str_def path_parts_def path_root_def path_name_def tmp_path_def

text \<open>
  A crawler that obeys robots files, made by the constructor, and a world in which the fetch
  of every robots file fails with a connection error.
\<close>

definition robots_crawler :: crawler where
  "robots_crawler =
     projr (init plain_web ''https://x.test/'' ''out'' ''history.json'' 3 2 30000 2 ''none'' 3
        (Prefix_list []) True False)"

definition robots_down :: env where
  "robots_down = plain_web\<lparr>robots_txt := (\<lambda>origin. Fetch_raises)\<rparr>"

text \<open>
  Two crawlers without robots check on a portal that never shows a link and whose controls
  never react to a click: one in the mode \<^verbatim>\<open>none\<close>, one in the mode \<^verbatim>\<open>pull\<close>, both with
  \<^verbatim>\<open>no_new_limit = 3\<close>.
\<close>

definition idle_crawler :: crawler where
  "idle_crawler =
     projr (init plain_web ''https://x.test/'' ''out'' ''history.json'' 3 2 30000 1 ''none'' 3
        (Prefix_list []) False False)"

definition pull_crawler :: crawler where
  "pull_crawler =
     projr (init plain_web ''https://x.test/'' ''out'' ''history.json'' 3 2 30000 1 ''pull'' 3
        (Prefix_list []) False False)"

text \<open>A crawler with three slots and a delay of two seconds per domain.\<close>

definition polite_crawler :: crawler where
  "polite_crawler =
     projr (init plain_web ''https://x.test/'' ''out'' ''history.json'' 3 2 30000 2 ''pull'' 3
        (Prefix_list []) False False)"

text \<open>
  A disk that holds a history file, and two calls of \<^verbatim>\<open>write_json_atomic\<close> on it, as two
  tasks of one level make them when both have saved their page; the temporary path of both
  is \<^verbatim>\<open>history.json.tmp\<close>.
\<close>

definition old_disk :: filesystem where
  "old_disk =
     \<lparr>names = [''history.json'' \<mapsto> 0], inodes = (\<lambda>i. [])(0 := ''{}''), next_inode = 1\<rparr>"

definition two_writers :: "writer list" where
  "two_writers =
     [writer_start ''history.json'' (the (tmp_path ''history.json'')) ''{a}'' No_fault,
      writer_start ''history.json'' (the (tmp_path ''history.json'')) ''{a, b}'' No_fault]"

lemmas fs_defs =
  old_disk_def two_writers_def writer_start_def wja_step_def fs_read_def fs_open_w_def
  fs_write_def fs_replace_def fs_unlink_def tmp_path_def path_name_def path_parts_def
  wja_raise_def

text \<open>A crawler made with numeric options that are zero or negative.\<close>

definition careless_crawler :: crawler where
  "careless_crawler =
     projr (init plain_web ''https://x.test/'' ''out'' ''history.json'' 0 (- 5) 0 (- 1) ''none'' 0
        (Prefix_list []) True False)"

text \<open>
  A world in which the export of one page times out, one in which every write of the history
  breaks off after three characters, and a crawler whose history path is a directory.
\<close>

definition pdf_broken :: env where
  "pdf_broken =
     plain_web\<lparr>pdf_export := (\<lambda>u. if u = ''https://x.test/a/2'' then Pdf_timeout else Pdf_saved)\<rparr>"

lemmas task_defs =
  process_page_task_def can_fetch_robots_def domain_delay_wait_def stamp_domain_def
  save_pdf_from_page_def save_history_entry_def write_json_atomic_def extract_links_def
  writer_start_def wja_step_def wja_raise_def fs_open_w_def fs_write_def fs_replace_def
  fs_unlink_def fs_read_def eval_nat_numeral



text \<open>
  A small site: the portal shows four links in the first round and none afterwards, the page
  \<^verbatim>\<open>/a/1\<close> links to three pages and every other page to one; the history file names one
  page of an earlier run. The crawler follows the prefix \<^verbatim>\<open>https://x.test/a/\<close> to depth 2.
\<close>

definition small_web :: env where
  "small_web =
     plain_web\<lparr>
       portal_hrefs := (\<lambda>k. if k = 1
          then Some [''https://x.test/b/1'', ''https://x.test/a/1'', ''https://x.test/a/1#top'',
                     ''https://x.test/a/0'']
          else Some []),
       page_hrefs := (\<lambda>u. if u = ''https://x.test/a/1''
          then Some [''https://x.test/a/2'', ''https://x.test/b/2'', ''https://x.test/a/1'']
          else Some [''https://x.test/a/3'']),
       json_loads := (\<lambda>s. Json_object
          [(''https://x.test/a/0'', \<lparr>filename = ''old.pdf'', sha1 = ''00'', saved_at = ''2023''\<rparr>)])\<rparr>"

definition prefix_crawler :: crawler where
  "prefix_crawler =
     projr (init plain_web ''https://x.test/'' ''out'' ''history.json'' 3 2 30000 0 ''pull'' 3
        (One_prefix ''https://x.test/a/'') False False)"

section \<open>Properties of the methods\<close>

subsection \<open>The options are never assigned\<close>

lemma config_bfs_levels:
  "config_of (self (bfs_levels e level depth st)) = config_of (self st)"
proof (induction e level depth st rule: bfs_levels.induct)
  case (1 e level depth st)
  show ?case
  proof (cases "level \<noteq> [] \<and> depth \<le> max_depth (self st)")
    case False
    then have "bfs_levels e level depth st = st"
      by (subst bfs_levels.simps) auto
    then show ?thesis by simp
  next
    case True
    obtain next_level st' where p: "process_level e level depth st = (next_level, st')"
      by (cases "process_level e level depth st")
    from config_process_level [of e level depth st] p
    have c: "config_of (self st') = config_of (self st)" by simp
    have u: "bfs_levels e level depth st = bfs_levels e next_level (depth + 1) st'"
      using True p by (subst bfs_levels.simps) simp
    from "1.IH" [OF True p [symmetric]] c u show ?thesis by simp
  qed
qed

lemma refresh_mode_config:
  "config_of c' = config_of c \<Longrightarrow> refresh_mode c' = refresh_mode c"
  by (metis config_of_fields(7))

subsection \<open>The portal loop\<close>

lemma run_loop_Suc:
  "extract_links e (portal_hrefs e (i + 1)) st = (links, st1) \<Longrightarrow>
   run_loop (Suc n) e i cnn st =
     (if links = [] then
        (if refresh_page e (i + 1) (self st1) then run_loop n e (i + 1) 0 st1
         else if cnn + 1 \<ge> no_new_limit (self st1)
              then (Exhausted, st1\<lparr>log := log st1 @ [Info_exhausted]\<rparr>)
              else run_loop n e (i + 1) (cnn + 1) st1)
      else run_loop n e (i + 1) 0 (bfs_levels e links 1 st1))"
  by (simp add: Let_def)

text \<open>In the mode \<^verbatim>\<open>none\<close> no number of rounds reaches the \<^verbatim>\<open>break\<close>.\<close>

lemma run_loop_mode_none:
  "refresh_mode (self st) = Mode_none \<Longrightarrow> fst (run_loop n e i cnn st) = Still_running"
proof (induction n arbitrary: i cnn st)
  case 0
  show ?case by simp
next
  case (Suc n)
  obtain links st1 where x: "extract_links e (portal_hrefs e (i + 1)) st = (links, st1)"
    by (cases "extract_links e (portal_hrefs e (i + 1)) st")
  from config_extract_links [of e "portal_hrefs e (i + 1)" st] x
  have "config_of (self st1) = config_of (self st)" by simp
  with Suc.prems have m1: "refresh_mode (self st1) = Mode_none"
    using refresh_mode_config by metis
  have m2: "refresh_mode (self (bfs_levels e links 1 st1)) = Mode_none"
    using config_bfs_levels [of e links 1 st1] m1 refresh_mode_config by metis
  have r: "refresh_page e (i + 1) (self st1)"
    using m1 by (simp add: refresh_page_def)
  show ?case
  proof (cases "links = []")
    case True
    have "run_loop (Suc n) e i cnn st = run_loop n e (i + 1) 0 st1"
      unfolding run_loop_Suc [OF x] using True r by simp
    then show ?thesis using Suc.IH [OF m1] by simp
  next
    case False
    have "run_loop (Suc n) e i cnn st = run_loop n e (i + 1) 0 (bfs_levels e links 1 st1)"
      unfolding run_loop_Suc [OF x] using False by simp
    then show ?thesis using Suc.IH [OF m2] by simp
  qed
qed

text \<open>
  In the mode \<^verbatim>\<open>pull\<close> the same portal ends the run in the third round, the value of
  \<^verbatim>\<open>no_new_limit\<close>.
\<close>

lemma pull_mode_exhausted:
  "fst (run 2 plain_web (start_state pull_crawler empty_disk)) = Still_running"
  "fst (run 3 plain_web (start_state pull_crawler empty_disk)) = Exhausted"
  by (simp_all add: run_def load_history_def read_json_def fs_read_def pull_crawler_def demo_defs
        mark_seen_def numeral_2_eq_2 numeral_3_eq_3 extract_links_def refresh_page_def)

subsection \<open>The constructor\<close>

lemma init_Inr:
  "init e su od hp cc md tm dl rm nl px orb dc = Inr c \<Longrightarrow>
   concurrency c = max 1 cc \<and> max_depth c = max 1 md \<and> timeout_ms c = max 1000 tm
   \<and> delay_s c = max 0 dl \<and> no_new_limit c = max 1 nl"
  by (auto simp: init_def split: option.splits prefixes_arg.splits)

lemma init_accepts:
  "(\<exists>c. init e su od hp cc md tm dl rm nl px orb dc = Inr c)
   \<longleftrightarrow> normalize_url e su \<noteq> None \<and> px \<noteq> No_prefixes"
  by (auto simp: init_def split: option.splits prefixes_arg.splits)

lemma config_mark_seen: "config_of (self (mark_seen u st)) = config_of (self st)"
  by (simp add: mark_seen_def config_of_def)

lemma config_load_history:
  "load_history e st = Inr st' \<Longrightarrow> config_of (self st') = config_of (self st)"
  by (auto simp: load_history_def read_json_def config_of_def
           split: option.splits json_doc.splits prod.splits)

lemma config_run_loop:
  "config_of (self (snd (run_loop n e i cnn st))) = config_of (self st)"
proof (induction n arbitrary: i cnn st)
  case 0
  show ?case by simp
next
  case (Suc n)
  obtain links st1 where x: "extract_links e (portal_hrefs e (i + 1)) st = (links, st1)"
    by (cases "extract_links e (portal_hrefs e (i + 1)) st")
  from config_extract_links [of e "portal_hrefs e (i + 1)" st] x
  have c1: "config_of (self st1) = config_of (self st)" by simp
  have c2: "config_of (self (bfs_levels e links 1 st1)) = config_of (self st)"
    using config_bfs_levels [of e links 1 st1] c1 by simp
  have c3: "config_of (self (st1\<lparr>log := log st1 @ [Info_exhausted]\<rparr>)) = config_of (self st)"
    using c1 by simp
  show ?case
    unfolding run_loop_Suc [OF x]
    using c1 c2 c3 Suc.IH [of "i + 1" 0 st1] Suc.IH [of "i + 1" "cnn + 1" st1]
      Suc.IH [of "i + 1" 0 "bfs_levels e links 1 st1"]
    by (simp del: run_loop.simps)
qed

lemma config_run:
  "config_of (self (snd (run n e st))) = config_of (self st)"
proof (cases "load_history e st")
  case (Inl err)
  then show ?thesis by (simp add: run_def)
next
  case (Inr st1)
  from config_load_history [OF Inr] have c1: "config_of (self st1) = config_of (self st)" .
  show ?thesis
  proof (cases "browser_ok e")
    case False
    with Inr c1 show ?thesis by (simp add: run_def)
  next
    case True
    have "config_of (self (snd (run_loop n e 0 0 (mark_seen (start_url (self st1)) st1))))
        = config_of (self st)"
      using config_run_loop [of n e 0 0 "mark_seen (start_url (self st1)) st1"]
        config_mark_seen [of "start_url (self st1)" st1] c1 by simp
    with Inr True show ?thesis by (simp add: run_def)
  qed
qed

lemma config_fields_eq:
  "config_of c' = config_of c \<Longrightarrow>
   concurrency c' = concurrency c \<and> max_depth c' = max_depth c \<and> timeout_ms c' = timeout_ms c
   \<and> delay_s c' = delay_s c \<and> no_new_limit c' = no_new_limit c"
  by (metis config_of_fields(1-5))

subsection \<open>Link extraction\<close>

text \<open>
  What a call of the filter does to the state: it marks a list of URLs as seen, in order,
  none of which was seen or processed before and each of which the prefix list allows.
\<close>

lemma prefix_allowed_seen [simp]:
  "prefix_allowed (c\<lparr>seen_urls := s\<rparr>) = prefix_allowed c"
  by (rule ext) (simp add: prefix_allowed_def)

definition fresh_links :: "state \<Rightarrow> string list \<Rightarrow> bool" where
  "fresh_links st new \<longleftrightarrow>
     distinct new \<and> set new \<inter> seen_urls (self st) = {} \<and>
     set new \<inter> processed_urls (self st) = {} \<and> list_all (prefix_allowed (self st)) new"

definition add_seen :: "string list \<Rightarrow> state \<Rightarrow> state" where
  "add_seen new st =
     st\<lparr>self := (self st)\<lparr>seen_urls := seen_urls (self st) \<union> set new\<rparr>,
        trace_seen := trace_seen st @ new\<rparr>"

lemma add_seen_Nil [simp]: "add_seen [] st = st"
  by (simp add: add_seen_def)

lemma add_seen_Cons: "add_seen new (mark_seen n st) = add_seen (n # new) st"
  by (simp add: add_seen_def mark_seen_def)

lemma fresh_links_Cons:
  "n \<notin> seen_urls (self st) \<Longrightarrow> n \<notin> processed_urls (self st) \<Longrightarrow> prefix_allowed (self st) n \<Longrightarrow>
   fresh_links (mark_seen n st) new \<Longrightarrow> fresh_links st (n # new)"
  by (auto simp: fresh_links_def mark_seen_def)

lemma filter_links_effect:
  "\<exists>new. snd (filter_links e hs out st) = add_seen new st
        \<and> (fst (filter_links e hs out st) = None \<or> fst (filter_links e hs out st) = Some (out @ new))
        \<and> fresh_links st new"
proof (induction e hs out st rule: filter_links.induct)
  case (1 e out st)
  show ?case by (rule exI [of _ "[]"]) (simp add: fresh_links_def)
next
  case (2 e h hs out st)
  show ?case
  proof (cases "h = []")
    case True
    with 2(1) show ?thesis by simp
  next
    case nonempty: False
    show ?thesis
    proof (cases "normalize_url e h")
      case None
      with nonempty show ?thesis
        by (intro exI [of _ "[]"]) (simp add: fresh_links_def)
    next
      case (Some n)
      show ?thesis
      proof (cases "prefix_allowed (self st) n \<and> n \<notin> seen_urls (self st) \<and> n \<notin> processed_urls (self st)")
        case True
        then have pa: "\<not> (prefixes (self st) \<noteq> [] \<and> \<not> prefix_allowed (self st) n)" by simp
        from 2(5) [OF nonempty Some pa] True
        obtain new where
          s: "snd (filter_links e hs (out @ [n]) (mark_seen n st)) = add_seen new (mark_seen n st)"
          and r: "fst (filter_links e hs (out @ [n]) (mark_seen n st)) = None
                \<or> fst (filter_links e hs (out @ [n]) (mark_seen n st)) = Some ((out @ [n]) @ new)"
          and f: "fresh_links (mark_seen n st) new"
          by auto
        have eq: "filter_links e (h # hs) out st = filter_links e hs (out @ [n]) (mark_seen n st)"
          using nonempty Some True by simp
        show ?thesis
          apply (rule exI [of _ "n # new"])
          using s r f True by (simp add: eq add_seen_Cons fresh_links_Cons del: filter_links.simps)
      next
        case False
        then have eq: "filter_links e (h # hs) out st = filter_links e hs out st"
          using nonempty Some by (auto simp: prefix_allowed_def)
        from False nonempty Some 2(2,3,4) have
          "\<exists>new. snd (filter_links e hs out st) = add_seen new st
        \<and> (fst (filter_links e hs out st) = None \<or> fst (filter_links e hs out st) = Some (out @ new))
        \<and> fresh_links st new"
          by (cases "prefixes (self st) \<noteq> [] \<and> \<not> prefix_allowed (self st) n")
             (auto simp: prefix_allowed_def)
        with eq show ?thesis by (simp del: filter_links.simps)
      qed
    qed
  qed
qed


lemma extract_links_effect:
  "\<exists>new. snd (extract_links e hrefs st) = add_seen new st
        \<and> set (fst (extract_links e hrefs st)) \<subseteq> set new
        \<and> fresh_links st new"
proof (cases hrefs)
  case None
  then show ?thesis
    by (intro exI [of _ "[]"]) (simp add: extract_links_def fresh_links_def)
next
  case (Some hs)
  from filter_links_effect [of e hs "[]" st]
  obtain new where s: "snd (filter_links e hs [] st) = add_seen new st"
    and r: "fst (filter_links e hs [] st) = None \<or> fst (filter_links e hs [] st) = Some ([] @ new)"
    and f: "fresh_links st new"
    by blast
  obtain res st' where fl: "filter_links e hs [] st = (res, st')"
    by (cases "filter_links e hs [] st")
  from Some fl s r f show ?thesis
    by (intro exI [of _ new]) (auto simp: extract_links_def)
qed

text \<open>What a run reads of the state when it filters links and what the traces hold.\<close>

definition view :: "state \<Rightarrow> string set \<times> string list \<times> (string \<times> int \<times> string list option) list" where
  "view st = (seen_urls (self st), trace_seen st, trace_dispatch st)"

lemma view_can_fetch_robots:
  "view (snd (can_fetch_robots e url st)) = view st"
  "processed_urls (self (snd (can_fetch_robots e url st))) = processed_urls (self st)"
  by (simp_all add: can_fetch_robots_def cache_robots_def view_def Let_def
           split: option.splits prod.splits)

lemma view_domain_delay_wait:
  "domain_delay_wait e url st = Some st' \<Longrightarrow> view st' = view st"
  "domain_delay_wait e url st = Some st' \<Longrightarrow> processed_urls (self st') = processed_urls (self st)"
  by (auto simp: domain_delay_wait_def stamp_domain_def view_def split: option.splits prod.splits)

lemma view_save_history_entry:
  "view (snd (save_history_entry e url fname h st)) = view st"
  "processed_urls (self st) \<subseteq> processed_urls (self (snd (save_history_entry e url fname h st)))"
  by (auto simp add: save_history_entry_def view_def Let_def split: prod.splits sum.splits)

lemma view_save_pdf:
  "view (snd (save_pdf_from_page e url st)) = view st"
  "processed_urls (self st) \<subseteq> processed_urls (self (snd (save_pdf_from_page e url st)))"
proof -
  let ?s = "save_history_entry e url
      (page_title_prefix e url @ ''_'' @ url_hash e url @ ''.pdf'') (url_hash e url) st"
  have a: "view (snd ?s) = view st" by (rule view_save_history_entry(1))
  have b: "processed_urls (self st) \<subseteq> processed_urls (self (snd ?s))"
    by (rule view_save_history_entry(2))
  show "view (snd (save_pdf_from_page e url st)) = view st"
  proof (cases "pdf_export e url")
    case Pdf_saved
    with a show ?thesis
      by (cases ?s) (auto simp add: save_pdf_from_page_def Let_def split: option.splits)
  qed (simp_all add: save_pdf_from_page_def Let_def view_def)
  show "processed_urls (self st) \<subseteq> processed_urls (self (snd (save_pdf_from_page e url st)))"
  proof (cases "pdf_export e url")
    case Pdf_saved
    with b show ?thesis
      by (cases ?s) (auto simp add: save_pdf_from_page_def Let_def split: option.splits)
  qed (simp_all add: save_pdf_from_page_def Let_def)
qed

subsection \<open>Writing the history\<close>

lemma tmp_path_Some: "tmp_path p = Some t \<Longrightarrow> t = p @ ''.tmp'' \<and> t \<noteq> p"
  by (auto simp: tmp_path_def split: if_splits)

lemma wja_steps_add:
  "wja_steps (m + n) w fs = (case wja_steps m w fs of (w', fs') \<Rightarrow> wja_steps n w' fs')"
  by (induction m arbitrary: w fs) (auto split: prod.splits)

lemma wja_step_done: "w_pc w = Pc_done \<Longrightarrow> wja_step w fs = (w, fs)"
  by (simp add: wja_step_def)

lemma wja_steps_done: "w_pc w = Pc_done \<Longrightarrow> wja_steps n w fs = (w, fs)"
  by (induction n) (simp_all add: wja_step_done)

lemmas wja_defs =
  writer_start_def wja_step_def wja_raise_def fs_open_w_def fs_write_def
  fs_replace_def fs_unlink_def fs_read_def eval_nat_numeral

lemma wja_five_done: "w_pc (fst (wja_steps 5 (writer_start p tmp doc f) fs)) = Pc_done"
  by (cases f; cases "names fs tmp") (simp_all add: wja_defs)

text \<open>A schedule with no other writer only says how many of the steps are taken early.\<close>

lemma interleave_alone:
  "interleave sched [w] fs =
     (case wja_steps (length (filter (\<lambda>i. i = 0) sched)) w fs of (w', fs') \<Rightarrow> ([w'], fs'))"
proof (induction sched arbitrary: w fs)
  case Nil
  show ?case by simp
next
  case (Cons i sched)
  show ?case
  proof (cases "i = 0")
    case True
    obtain w1 fs1 where s: "wja_step w fs = (w1, fs1)" by (cases "wja_step w fs")
    with True Cons [of w1 fs1] show ?thesis by simp
  next
    case False
    with Cons [of w fs] show ?thesis by simp
  qed
qed

lemma write_json_atomic_alone:
  assumes "tmp_path p = Some tmp"
  shows "write_json_atomic [] sched p doc f fs =
     Inr (w_failed (fst (wja_steps 5 (writer_start p tmp doc f) fs)),
          snd (wja_steps 5 (writer_start p tmp doc f) fs))"
proof -
  let ?w = "writer_start p tmp doc f"
  let ?k = "length (filter (\<lambda>i. i = 0) sched)"
  obtain w5 fs5 where five: "wja_steps 5 ?w fs = (w5, fs5)" by (cases "wja_steps 5 ?w fs")
  obtain wk fsk where k: "wja_steps ?k ?w fs = (wk, fsk)" by (cases "wja_steps ?k ?w fs")
  from wja_five_done [of p tmp doc f fs] five have d: "w_pc w5 = Pc_done" by simp
  have "wja_steps 5 wk fsk = wja_steps (?k + 5) ?w fs"
    using k by (simp add: wja_steps_add del: wja_steps.simps)
  also have "\<dots> = wja_steps (5 + ?k) ?w fs" by (simp only: add.commute)
  also have "\<dots> = wja_steps ?k w5 fs5"
    using five by (simp add: wja_steps_add del: wja_steps.simps)
  also have "\<dots> = (w5, fs5)" using d by (rule wja_steps_done)
  finally have e: "wja_steps 5 wk fsk = (w5, fs5)" .
  have "interleave sched [?w] fs = ([wk], fsk)"
    using k by (simp add: interleave_alone del: wja_steps.simps)
  with e five assms show ?thesis
    by (simp add: write_json_atomic_def del: wja_steps.simps)
qed

definition tmp_separate :: "filesystem \<Rightarrow> string \<Rightarrow> bool" where
  "tmp_separate fs p =
     (case names fs p of
        None \<Rightarrow> True
      | Some i \<Rightarrow> i < next_inode fs \<and> names fs (p @ ''.tmp'') \<noteq> Some i)"

lemma wja_alone_failed:
  "w_failed (fst (wja_steps 5 (writer_start p tmp doc f) fs)) \<longleftrightarrow> f \<noteq> No_fault"
  by (cases f; cases "names fs tmp") (simp_all add: wja_defs)

lemma wja_alone_ok:
  "tmp \<noteq> p \<Longrightarrow> fs_read (snd (wja_steps 5 (writer_start p tmp doc No_fault) fs)) p = Some doc"
  by (cases "names fs tmp") (simp_all add: wja_defs)

lemma wja_alone_fault:
  "f \<noteq> No_fault \<Longrightarrow> tmp_separate fs p \<Longrightarrow>
   fs_read (snd (wja_steps 5 (writer_start p (p @ ''.tmp'') doc f) fs)) p = fs_read fs p"
  by (cases f; cases "names fs (p @ ''.tmp'')"; cases "names fs p")
     (auto simp add: wja_defs tmp_separate_def)

subsection \<open>Recording a page\<close>

lemma save_history_entry_history:
  "history (self (snd (save_history_entry e url fname h st)))
     = AList.update url \<lparr>filename = fname, sha1 = h, saved_at = utc_now e url\<rparr> (history (self st))"
  "map_of (history (self (snd (save_history_entry e url fname h st)))) url
     = Some \<lparr>filename = fname, sha1 = h, saved_at = utc_now e url\<rparr>"
  "history_file (self (snd (save_history_entry e url fname h st))) = history_file (self st)"
  by (simp_all add: save_history_entry_def Let_def update_conv' split: prod.splits sum.splits)

lemma save_history_entry_no_name:
  assumes "tmp_path (history_file (self st)) = None"
  shows "fst (save_history_entry e url fname h st) = Some ValueError"
    and "processed_urls (self (snd (save_history_entry e url fname h st))) = processed_urls (self st)"
    and "disk (snd (save_history_entry e url fname h st)) = disk st"
    and "log (snd (save_history_entry e url fname h st)) = log st"
  using assms by (simp_all add: save_history_entry_def Let_def write_json_atomic_def)

lemma write_json_atomic_Inr:
  "tmp_path p \<noteq> None \<Longrightarrow> \<exists>failed d. write_json_atomic others sched p doc f fs = Inr (failed, d)"
  by (auto simp: write_json_atomic_def split: prod.splits)

lemma save_history_entry_name:
  assumes "tmp_path (history_file (self st)) \<noteq> None"
  shows "fst (save_history_entry e url fname h st) = None"
    and "processed_urls (self (snd (save_history_entry e url fname h st)))
           = insert url (processed_urls (self st))"
    and "log (snd (save_history_entry e url fname h st)) = log st
         \<or> log (snd (save_history_entry e url fname h st))
              = log st @ [Warn_write_json (history_file (self st))]"
proof -
  let ?doc = "json_dumps e (AList.update url \<lparr>filename = fname, sha1 = h, saved_at = utc_now e url\<rparr>
      (history (self st)))"
  from write_json_atomic_Inr [OF assms]
  obtain failed d where w: "write_json_atomic (in_flight e url) (write_schedule e url)
      (history_file (self st)) ?doc (disk_fault e url) (disk st) = Inr (failed, d)"
    by blast
  show "fst (save_history_entry e url fname h st) = None"
    using w by (simp add: save_history_entry_def Let_def)
  show "processed_urls (self (snd (save_history_entry e url fname h st)))
           = insert url (processed_urls (self st))"
    using w by (simp add: save_history_entry_def Let_def)
  show "log (snd (save_history_entry e url fname h st)) = log st
         \<or> log (snd (save_history_entry e url fname h st))
              = log st @ [Warn_write_json (history_file (self st))]"
    using w by (simp add: save_history_entry_def Let_def)
qed

text \<open>The disk and the log when no other call is in flight.\<close>

lemma save_history_entry_alone:
  assumes "tmp_path (history_file (self st)) \<noteq> None" "in_flight e url = []"
  shows "log (snd (save_history_entry e url fname h st))
           = (if disk_fault e url = No_fault then log st
              else log st @ [Warn_write_json (history_file (self st))])"
    and "disk_fault e url = No_fault \<Longrightarrow>
         fs_read (disk (snd (save_history_entry e url fname h st))) (history_file (self st))
           = Some (json_dumps e (history (self (snd (save_history_entry e url fname h st)))))"
    and "disk_fault e url \<noteq> No_fault \<Longrightarrow> tmp_separate (disk st) (history_file (self st)) \<Longrightarrow>
         fs_read (disk (snd (save_history_entry e url fname h st))) (history_file (self st))
           = fs_read (disk st) (history_file (self st))"
proof -
  let ?p = "history_file (self st)"
  let ?doc = "json_dumps e (AList.update url \<lparr>filename = fname, sha1 = h, saved_at = utc_now e url\<rparr>
      (history (self st)))"
  from assms(1) obtain tmp where t: "tmp_path ?p = Some tmp" by blast
  from tmp_path_Some [OF t] have tp: "tmp = ?p @ ''.tmp''" "tmp \<noteq> ?p" by simp_all
  let ?r = "wja_steps 5 (writer_start ?p tmp ?doc (disk_fault e url)) (disk st)"
  have w: "write_json_atomic (in_flight e url) (write_schedule e url) ?p ?doc (disk_fault e url)
      (disk st) = Inr (w_failed (fst ?r), snd ?r)"
    using write_json_atomic_alone [OF t] assms(2) by simp
  have l: "log (snd (save_history_entry e url fname h st))
      = (if w_failed (fst ?r) then log st @ [Warn_write_json ?p] else log st)"
    and d: "disk (snd (save_history_entry e url fname h st)) = snd ?r"
    using w by (simp_all add: save_history_entry_def Let_def del: wja_steps.simps)
  show "log (snd (save_history_entry e url fname h st))
           = (if disk_fault e url = No_fault then log st
              else log st @ [Warn_write_json (history_file (self st))])"
    unfolding l wja_alone_failed by simp
  show "fs_read (disk (snd (save_history_entry e url fname h st))) (history_file (self st))
           = Some (json_dumps e (history (self (snd (save_history_entry e url fname h st)))))"
    if "disk_fault e url = No_fault"
    unfolding d save_history_entry_history(1) using that wja_alone_ok [OF tp(2)] by simp
  show "fs_read (disk (snd (save_history_entry e url fname h st))) (history_file (self st))
           = fs_read (disk st) (history_file (self st))"
    if "disk_fault e url \<noteq> No_fault" "tmp_separate (disk st) (history_file (self st))"
    unfolding d tp(1) using that by (rule wja_alone_fault)
qed

lemma save_pdf_saved:
  "pdf_export e url = Pdf_saved \<Longrightarrow>
   snd (save_pdf_from_page e url st)
     = snd (save_history_entry e url (page_title_prefix e url @ ''_'' @ url_hash e url @ ''.pdf'')
         (url_hash e url) st)"
  by (simp add: save_pdf_from_page_def Let_def split: prod.splits option.splits)

lemma save_pdf_failed:
  "pdf_export e url \<noteq> Pdf_saved \<Longrightarrow>
   fst (save_pdf_from_page e url st) = Inl (Export_failed (pdf_export e url))
   \<and> self (snd (save_pdf_from_page e url st)) = self st
   \<and> disk (snd (save_pdf_from_page e url st)) = disk st"
  by (cases "pdf_export e url") (simp_all add: save_pdf_from_page_def Let_def)

subsection \<open>What a task leaves for a later run\<close>

text \<open>The history in memory, the set of processed URLs, and the disk.\<close>

definition durable :: "state \<Rightarrow> history \<times> string set \<times> filesystem" where
  "durable st = (history (self st), processed_urls (self st), disk st)"

lemma durable_add_seen: "durable (add_seen new st) = durable st"
  by (simp add: durable_def add_seen_def)

lemma durable_extract_links: "durable (snd (extract_links e hrefs st)) = durable st"
  using extract_links_effect [of e hrefs st] by (auto simp: durable_add_seen)

lemma durable_can_fetch_robots: "durable (snd (can_fetch_robots e url st)) = durable st"
  by (simp add: can_fetch_robots_def cache_robots_def durable_def Let_def
        split: option.splits prod.splits)

lemma durable_domain_delay_wait:
  "domain_delay_wait e url st = Some st' \<Longrightarrow> durable st' = durable st"
  by (auto simp: domain_delay_wait_def stamp_domain_def durable_def
        split: option.splits prod.splits)

lemma durable_save_pdf_failed:
  "pdf_export e url \<noteq> Pdf_saved \<Longrightarrow> durable (snd (save_pdf_from_page e url st)) = durable st"
  using save_pdf_failed [of e url st] by (simp add: durable_def)

text \<open>
  The paths of a task. It reaches the page when the robots check allows the URL, the URL can
  be parsed and the browser opens a page; otherwise it ends before the export.
\<close>

definition reaches_page :: "env \<Rightarrow> string \<Rightarrow> state \<Rightarrow> bool" where
  "reaches_page e url st \<longleftrightarrow>
     fst (can_fetch_robots e url st) = Some True \<and> urlparse e url \<noteq> None \<and> new_page_ok e url"

lemma domain_delay_wait_None: "domain_delay_wait e url st = None \<longleftrightarrow> urlparse e url = None"
  by (simp add: domain_delay_wait_def split: option.splits prod.splits)

lemma task_not_reached:
  assumes "\<not> reaches_page e url st"
  shows "durable (snd (process_page_task e url depth st)) = durable st"
    and "links_of (fst (process_page_task e url depth st)) = []"
proof -
  obtain b st1 where r: "can_fetch_robots e url st = (b, st1)"
    by (cases "can_fetch_robots e url st")
  from durable_can_fetch_robots [of e url st] r
  have d1: "durable st1 = durable st" by simp
  have "durable (snd (process_page_task e url depth st)) = durable st
      \<and> links_of (fst (process_page_task e url depth st)) = []"
  proof (cases b)
    case None
    with r d1 show ?thesis by (simp add: process_page_task_def links_of_def)
  next
    case (Some ok)
    show ?thesis
    proof (cases ok)
      case False
      with Some r d1 show ?thesis by (simp add: process_page_task_def durable_def links_of_def)
    next
      case True
      show ?thesis
      proof (cases "domain_delay_wait e url st1")
        case None
        with True Some r d1 show ?thesis by (simp add: process_page_task_def links_of_def)
      next
        case (Some st2)
        from durable_domain_delay_wait [OF Some] d1
        have d2: "durable st2 = durable st" by simp
        from Some have "urlparse e url \<noteq> None"
          using domain_delay_wait_None [of e url st1] by simp
        with assms True \<open>b = Some ok\<close> r have "\<not> new_page_ok e url"
          by (simp add: reaches_page_def)
        with True \<open>b = Some ok\<close> r Some d2 show ?thesis
          by (simp add: process_page_task_def links_of_def)
      qed
    qed
  qed
  then show "durable (snd (process_page_task e url depth st)) = durable st"
    and "links_of (fst (process_page_task e url depth st)) = []"
    by simp_all
qed

lemma task_reached:
  assumes "reaches_page e url st"
  shows "\<exists>st2. durable st2 = durable st \<and> config_of (self st2) = config_of (self st)
     \<and> durable (snd (process_page_task e url depth st))
         = durable (snd (save_pdf_from_page e url st2))
     \<and> fst (process_page_task e url depth st) \<noteq> None"
proof -
  obtain b st1 where r: "can_fetch_robots e url st = (b, st1)"
    by (cases "can_fetch_robots e url st")
  from assms r have b: "b = Some True" and u: "urlparse e url \<noteq> None" and n: "new_page_ok e url"
    by (simp_all add: reaches_page_def)
  from durable_can_fetch_robots [of e url st] config_can_fetch_robots [of e url st] r
  have d1: "durable st1 = durable st" "config_of (self st1) = config_of (self st)" by simp_all
  from u obtain st2 where w: "domain_delay_wait e url st1 = Some st2"
    using domain_delay_wait_None [of e url st1] by auto
  from durable_domain_delay_wait [OF w] config_domain_delay_wait [OF w] d1
  have d2: "durable st2 = durable st" "config_of (self st2) = config_of (self st)" by simp_all
  let ?st3 = "snd (save_pdf_from_page e url st2)"
  have x: "durable (snd (extract_links e (page_hrefs e url) ?st3)) = durable ?st3"
    by (rule durable_extract_links)
  have "durable (snd (process_page_task e url depth st)) = durable ?st3
      \<and> fst (process_page_task e url depth st) \<noteq> None"
    using r b w n x by (auto simp add: process_page_task_def Let_def split: prod.splits)
  with d2 show ?thesis by blast
qed


subsection \<open>The shape of a task\<close>

text \<open>
  A step that leaves the set of seen URLs and the traces alone, keeps what was processed and
  assigns no option.
\<close>

definition kept :: "state \<Rightarrow> state \<Rightarrow> bool" where
  "kept st st' \<longleftrightarrow>
     view st' = view st \<and> processed_urls (self st) \<subseteq> processed_urls (self st')
     \<and> config_of (self st') = config_of (self st)"


lemma kept_trans: "kept st st1 \<Longrightarrow> kept st1 st2 \<Longrightarrow> kept st st2"
  unfolding kept_def by auto

lemma kept_log: "kept st (st\<lparr>log := l\<rparr>)"
  by (simp add: kept_def view_def)

lemma kept_can_fetch_robots: "kept st (snd (can_fetch_robots e url st))"
  unfolding kept_def
  using view_can_fetch_robots [where e = e and url = url and st = st] config_can_fetch_robots [of e url st] by simp

lemma kept_domain_delay_wait: "domain_delay_wait e url st = Some st' \<Longrightarrow> kept st st'"
  unfolding kept_def
  using view_domain_delay_wait [where e = e and url = url and st = st and st' = st'] config_domain_delay_wait [of e url st st'] by simp

lemma kept_save_pdf: "kept st (snd (save_pdf_from_page e url st))"
  unfolding kept_def
  using view_save_pdf [where e = e and url = url and st = st] config_save_pdf [of e url st] by simp

lemma kept_fields:
  assumes "kept st st'"
  shows "seen_urls (self st') = seen_urls (self st)" "trace_seen st' = trace_seen st"
    "trace_dispatch st' = trace_dispatch st" "max_depth (self st') = max_depth (self st)"
    "processed_urls (self st) \<subseteq> processed_urls (self st')"
    "config_of (self st') = config_of (self st)"
proof -
  from assms have v: "view st' = view st" and c: "config_of (self st') = config_of (self st)"
    and p: "processed_urls (self st) \<subseteq> processed_urls (self st')"
    by (simp_all add: kept_def)
  from v show "seen_urls (self st') = seen_urls (self st)" "trace_seen st' = trace_seen st"
    "trace_dispatch st' = trace_dispatch st"
    by (simp_all add: view_def)
  from c show "max_depth (self st') = max_depth (self st)" by (metis config_of_fields(1))
  from p c show "processed_urls (self st) \<subseteq> processed_urls (self st')"
    "config_of (self st') = config_of (self st)" by simp_all
qed

text \<open>
  Whatever path a task takes, it is a kept step that ends with no link, or a kept step
  followed by one extraction, and this only below the maximal depth.
\<close>

lemma task_shape:
  "\<exists>st'. kept st st' \<and>
     (process_page_task e u d st = (None, st') \<or> process_page_task e u d st = (Some [], st')
      \<or> (d < max_depth (self st)
          \<and> process_page_task e u d st
              = (Some (fst (extract_links e (page_hrefs e u) st')),
                 snd (extract_links e (page_hrefs e u) st'))))"
proof -
  obtain ok st1 where r: "can_fetch_robots e u st = (ok, st1)"
    by (cases "can_fetch_robots e u st")
  from kept_can_fetch_robots [of st e u] r have k1: "kept st st1" by simp
  show ?thesis
  proof (cases ok)
    case None
    with r have "process_page_task e u d st = (None, st1)"
      by (simp add: process_page_task_def)
    with k1 show ?thesis by blast
  next
    case (Some allowed)
    show ?thesis
    proof (cases allowed)
      case False
      have k: "kept st (st1\<lparr>log := log st1 @ [Info_robots_prohibits u]\<rparr>)"
        using kept_trans [OF k1 kept_log] .
      from False Some r
      have "process_page_task e u d st
          = (Some [], st1\<lparr>log := log st1 @ [Info_robots_prohibits u]\<rparr>)"
        by (simp add: process_page_task_def)
      with k show ?thesis by blast
    next
      case True
      show ?thesis
      proof (cases "domain_delay_wait e u st1")
        case None
        with True \<open>ok = Some allowed\<close> r have "process_page_task e u d st = (None, st1)"
          by (simp add: process_page_task_def)
        with k1 show ?thesis by blast
      next
        case (Some st2)
        from kept_trans [OF k1 kept_domain_delay_wait [OF Some]] have k2: "kept st st2" .
        show ?thesis
        proof (cases "new_page_ok e u")
          case False
          with Some True \<open>ok = Some allowed\<close> r have "process_page_task e u d st = (None, st2)"
            by (simp add: process_page_task_def)
          with k2 show ?thesis by blast
        next
          case page: True
          define st3 where "st3 = snd (save_pdf_from_page e u st2)"
          from kept_trans [OF k2 kept_save_pdf] have k3: "kept st st3"
            by (simp add: st3_def)
          from kept_fields(4) [OF k3] have md: "max_depth (self st3) = max_depth (self st)" .
          show ?thesis
          proof (cases "d < max_depth (self st)")
            case False
            with md page Some True \<open>ok = Some allowed\<close> r
            have "process_page_task e u d st = (Some [], st3)"
              by (simp add: process_page_task_def Let_def st3_def)
            with k3 show ?thesis by blast
          next
            case deeper: True
            with md page Some True \<open>ok = Some allowed\<close> r
            have "process_page_task e u d st
                = (Some (fst (extract_links e (page_hrefs e u) st3)),
                   snd (extract_links e (page_hrefs e u) st3))"
              by (simp add: process_page_task_def Let_def st3_def split: prod.splits)
            with k3 deeper show ?thesis by blast
          qed
        qed
      qed
    qed
  qed
qed

lemma durable_task_no_record:
  assumes "pdf_export e url \<noteq> Pdf_saved \<or> \<not> reaches_page e url st"
  shows "durable (snd (process_page_task e url depth st)) = durable st"
proof (cases "reaches_page e url st")
  case False
  then show ?thesis by (rule task_not_reached(1))
next
  case True
  with assms have f: "pdf_export e url \<noteq> Pdf_saved" by simp
  from task_reached [OF True, of depth]
  obtain st2 where "durable st2 = durable st"
    "durable (snd (process_page_task e url depth st)) = durable (snd (save_pdf_from_page e url st2))"
    by blast
  with durable_save_pdf_failed [OF f, of st2] show ?thesis by simp
qed

lemma history_file_config:
  "config_of c' = config_of c \<Longrightarrow> history_file c' = history_file c"
  by (metis config_of_fields(9))

lemma task_records:
  assumes r: "reaches_page e url st" and s: "pdf_export e url = Pdf_saved"
  shows "map_of (history (self (snd (process_page_task e url depth st)))) url
           = Some \<lparr>filename = page_title_prefix e url @ ''_'' @ url_hash e url @ ''.pdf'',
                   sha1 = url_hash e url, saved_at = utc_now e url\<rparr>"
    and "tmp_path (history_file (self st)) \<noteq> None \<Longrightarrow>
         url \<in> processed_urls (self (snd (process_page_task e url depth st)))"
    and "tmp_path (history_file (self st)) \<noteq> None \<Longrightarrow> disk_fault e url = No_fault \<Longrightarrow>
         in_flight e url = [] \<Longrightarrow>
         fs_read (disk (snd (process_page_task e url depth st))) (history_file (self st))
           = Some (json_dumps e (history (self (snd (process_page_task e url depth st)))))"
proof -
  let ?f = "page_title_prefix e url @ ''_'' @ url_hash e url @ ''.pdf''"
  from task_reached [OF r, of depth]
  obtain st2 where d2: "durable st2 = durable st" and c2: "config_of (self st2) = config_of (self st)"
    and t: "durable (snd (process_page_task e url depth st))
              = durable (snd (save_pdf_from_page e url st2))"
    by blast
  let ?s = "snd (save_history_entry e url ?f (url_hash e url) st2)"
  from t save_pdf_saved [OF s, of st2]
  have d: "durable (snd (process_page_task e url depth st)) = durable ?s" by simp
  from history_file_config [OF c2] have hf: "history_file (self st2) = history_file (self st)" .
  from d have h: "history (self (snd (process_page_task e url depth st))) = history (self ?s)"
    and p: "processed_urls (self (snd (process_page_task e url depth st))) = processed_urls (self ?s)"
    and k: "disk (snd (process_page_task e url depth st)) = disk ?s"
    by (simp_all add: durable_def)
  show "map_of (history (self (snd (process_page_task e url depth st)))) url
           = Some \<lparr>filename = ?f, sha1 = url_hash e url, saved_at = utc_now e url\<rparr>"
    unfolding h by (rule save_history_entry_history(2))
  show "url \<in> processed_urls (self (snd (process_page_task e url depth st)))"
    if "tmp_path (history_file (self st)) \<noteq> None"
    unfolding p using save_history_entry_name(2) [of st2 e url ?f "url_hash e url"] that hf
    by simp
  show "fs_read (disk (snd (process_page_task e url depth st))) (history_file (self st))
           = Some (json_dumps e (history (self (snd (process_page_task e url depth st)))))"
    if "tmp_path (history_file (self st)) \<noteq> None" "disk_fault e url = No_fault"
      "in_flight e url = []"
    unfolding h k
    using save_history_entry_alone(2) [of st2 e url ?f "url_hash e url"] that hf by simp
qed

subsection \<open>Once processed, never extracted again\<close>












subsection \<open>The invariant of a run\<close>

lemma prefix_allowed_config:
  "config_of c' = config_of c \<Longrightarrow> prefix_allowed c' = prefix_allowed c"
proof (rule ext)
  fix u
  assume "config_of c' = config_of c"
  then have "prefixes c' = prefixes c" by (metis config_of_fields(6))
  then show "prefix_allowed c' u = prefix_allowed c u" by (simp add: prefix_allowed_def)
qed

text \<open>
  \<open>H\<close> is the set of URLs loaded from the history, \<open>c0\<close> the crawler as the constructor
  made it. A URL is good when it is not in \<open>H\<close> and the prefix list allows it.
\<close>

definition good :: "string set \<Rightarrow> crawler \<Rightarrow> string \<Rightarrow> bool" where
  "good H c0 u \<longleftrightarrow> u \<notin> H \<and> prefix_allowed c0 u"

definition base_inv :: "string set \<Rightarrow> crawler \<Rightarrow> state \<Rightarrow> bool" where
  "base_inv H c0 st \<longleftrightarrow>
     H \<subseteq> processed_urls (self st) \<and> distinct (trace_seen st)
     \<and> set (trace_seen st) = seen_urls (self st) \<and> config_of (self st) = config_of c0"

lemma base_inv_kept:
  assumes "base_inv H c0 st" "kept st st'"
  shows "base_inv H c0 st'"
  using assms kept_fields [OF assms(2)] unfolding base_inv_def by auto

lemma base_inv_other_fields:
  "base_inv H c0 st \<Longrightarrow> base_inv H c0 (st\<lparr>trace_dispatch := t\<rparr>)"
  "base_inv H c0 st \<Longrightarrow> base_inv H c0 (st\<lparr>log := l\<rparr>)"
  by (simp_all add: base_inv_def)

lemma config_add_seen: "config_of (self (add_seen new st)) = config_of (self st)"
  by (simp add: add_seen_def config_of_def)

lemma base_inv_add_seen:
  assumes "base_inv H c0 st" "fresh_links st new"
  shows "base_inv H c0 (add_seen new st)"
proof -
  have "config_of (self (add_seen new st)) = config_of c0"
    using assms(1) by (simp add: config_add_seen base_inv_def)
  moreover have "H \<subseteq> processed_urls (self (add_seen new st))"
    using assms(1) by (simp add: add_seen_def base_inv_def)
  moreover have "distinct (trace_seen (add_seen new st))"
    using assms by (auto simp: add_seen_def base_inv_def fresh_links_def)
  moreover have "set (trace_seen (add_seen new st)) = seen_urls (self (add_seen new st))"
    using assms(1) by (auto simp: add_seen_def base_inv_def)
  ultimately show ?thesis by (simp add: base_inv_def)
qed

lemma fresh_links_good:
  assumes "base_inv H c0 st" "fresh_links st new" "l \<in> set new"
  shows "good H c0 l"
proof -
  from assms(1) have c: "config_of (self st) = config_of c0" by (simp add: base_inv_def)
  from prefix_allowed_config [OF c] have p: "prefix_allowed (self st) = prefix_allowed c0" .
  from assms(2,3) have "prefix_allowed (self st) l" "l \<notin> processed_urls (self st)"
    by (auto simp: fresh_links_def list_all_iff)
  with p assms(1) show ?thesis by (auto simp: good_def base_inv_def)
qed

lemma extract_links_inv:
  assumes "base_inv H c0 st"
  shows "base_inv H c0 (snd (extract_links e hrefs st))"
    and "trace_dispatch (snd (extract_links e hrefs st)) = trace_dispatch st"
    and "\<forall>l\<in>set (fst (extract_links e hrefs st)). good H c0 l"
proof -
  from extract_links_effect [of e hrefs st]
  obtain new where s: "snd (extract_links e hrefs st) = add_seen new st"
    and r: "set (fst (extract_links e hrefs st)) \<subseteq> set new"
    and f: "fresh_links st new"
    by blast
  show "base_inv H c0 (snd (extract_links e hrefs st))"
    unfolding s using assms f by (rule base_inv_add_seen)
  show "trace_dispatch (snd (extract_links e hrefs st)) = trace_dispatch st"
    unfolding s by (simp add: add_seen_def)
  show "\<forall>l\<in>set (fst (extract_links e hrefs st)). good H c0 l"
    using r fresh_links_good [OF assms f] by blast
qed

lemma task_inv:
  assumes b: "base_inv H c0 st"
  shows "base_inv H c0 (snd (process_page_task e u d st))"
    and "trace_dispatch (snd (process_page_task e u d st)) = trace_dispatch st"
    and "\<forall>l\<in>set (links_of (fst (process_page_task e u d st))). good H c0 l"
    and "max_depth c0 \<le> d \<Longrightarrow> links_of (fst (process_page_task e u d st)) = []"
proof -
  from b have md: "max_depth (self st) = max_depth c0"
    by (metis base_inv_def config_of_fields(1))
  from task_shape [of st e u d]
  obtain st' where k: "kept st st'"
    and c: "process_page_task e u d st = (None, st') \<or> process_page_task e u d st = (Some [], st')
      \<or> (d < max_depth (self st)
          \<and> process_page_task e u d st
              = (Some (fst (extract_links e (page_hrefs e u) st')),
                 snd (extract_links e (page_hrefs e u) st')))"
    by blast
  from base_inv_kept [OF b k] have b': "base_inv H c0 st'" .
  from kept_fields(3) [OF k] have t: "trace_dispatch st' = trace_dispatch st" .
  note x = extract_links_inv [OF b', of e "page_hrefs e u"]
  from c b' x(1) show "base_inv H c0 (snd (process_page_task e u d st))" by auto
  from c t x(2) show "trace_dispatch (snd (process_page_task e u d st)) = trace_dispatch st"
    by auto
  from c x(3) show "\<forall>l\<in>set (links_of (fst (process_page_task e u d st))). good H c0 l"
    by (auto simp: links_of_def)
  from c md show "links_of (fst (process_page_task e u d st)) = []" if "max_depth c0 \<le> d"
    using that by (auto simp: links_of_def)
qed

text \<open>
  What the trace of dispatches must show of each entry: the URL is good, the depth lies
  between 1 and the maximal depth, the links returned are good and there are none at the
  maximal depth, and at a depth above 1 the URL is a link that a task of the depth before
  returned.
\<close>

definition parent_in :: "(string \<times> int \<times> string list option) list \<Rightarrow> int \<Rightarrow> string \<Rightarrow> bool" where
  "parent_in tr d u \<longleftrightarrow> d = 1 \<or> (\<exists>p r. (p, d - 1, r) \<in> set tr \<and> u \<in> set (links_of r))"

definition entry_ok ::
  "string set \<Rightarrow> crawler \<Rightarrow> (string \<times> int \<times> string list option) list
   \<Rightarrow> string \<times> int \<times> string list option \<Rightarrow> bool" where
  "entry_ok H c0 tr x \<longleftrightarrow>
     (case x of (u, d, r) \<Rightarrow>
        good H c0 u \<and> 1 \<le> d \<and> d \<le> max_depth c0
        \<and> (max_depth c0 \<le> d \<longrightarrow> links_of r = [])
        \<and> (\<forall>l\<in>set (links_of r). good H c0 l) \<and> parent_in tr d u)"

definition run_inv :: "string set \<Rightarrow> crawler \<Rightarrow> state \<Rightarrow> bool" where
  "run_inv H c0 st \<longleftrightarrow>
     base_inv H c0 st \<and> (\<forall>x\<in>set (trace_dispatch st). entry_ok H c0 (trace_dispatch st) x)"

lemma parent_in_mono: "parent_in tr d u \<Longrightarrow> set tr \<subseteq> set tr' \<Longrightarrow> parent_in tr' d u"
  unfolding parent_in_def by blast

lemma entry_ok_mono: "entry_ok H c0 tr x \<Longrightarrow> set tr \<subseteq> set tr' \<Longrightarrow> entry_ok H c0 tr' x"
  unfolding entry_ok_def using parent_in_mono by (auto split: prod.splits)

lemma parent_in_next:
  "(p, d, r) \<in> set tr \<Longrightarrow> l \<in> set (links_of r) \<Longrightarrow> parent_in tr (d + 1) l"
  unfolding parent_in_def by auto

lemma run_inv_same_trace:
  "run_inv H c0 st \<Longrightarrow> base_inv H c0 st' \<Longrightarrow> trace_dispatch st' = trace_dispatch st \<Longrightarrow>
   run_inv H c0 st'"
  by (simp add: run_inv_def)

lemma run_inv_append:
  assumes "run_inv H c0 st" "base_inv H c0 st'" "trace_dispatch st' = trace_dispatch st"
    "entry_ok H c0 (trace_dispatch st) x"
  shows "run_inv H c0 (st'\<lparr>trace_dispatch := trace_dispatch st' @ [x]\<rparr>)"
proof -
  let ?tr = "trace_dispatch st @ [x]"
  have s: "set (trace_dispatch st) \<subseteq> set ?tr" by auto
  from assms(1) have o: "\<forall>y\<in>set (trace_dispatch st). entry_ok H c0 (trace_dispatch st) y"
    by (simp add: run_inv_def)
  have "\<forall>y\<in>set ?tr. entry_ok H c0 ?tr y"
  proof
    fix y assume "y \<in> set ?tr"
    then have "entry_ok H c0 (trace_dispatch st) y" using o assms(4) by auto
    then show "entry_ok H c0 ?tr y" using s by (rule entry_ok_mono)
  qed
  with base_inv_other_fields(1) [OF assms(2)] assms(3) show ?thesis
    by (simp add: run_inv_def)
qed

lemma run_tasks_inv:
  "run_inv H c0 st \<Longrightarrow> 1 \<le> d \<Longrightarrow> d \<le> max_depth c0 \<Longrightarrow>
   \<forall>t\<in>set ts. good H c0 (snd t) \<and> parent_in (trace_dispatch st) d (snd t) \<Longrightarrow>
   run_inv H c0 (snd (run_tasks e d ts st))
   \<and> set (trace_dispatch st) \<subseteq> set (trace_dispatch (snd (run_tasks e d ts st)))
   \<and> (\<forall>x\<in>set (fst (run_tasks e d ts st)).
         (\<forall>l\<in>set (links_of (snd x)). good H c0 l)
         \<and> (\<exists>u. (u, d, snd x) \<in> set (trace_dispatch (snd (run_tasks e d ts st)))))"
proof (induction ts arbitrary: st)
  case Nil
  then show ?case by simp
next
  case (Cons t ts)
  obtain i u where t: "t = (i, u)" by (cases t)
  obtain r st1 where p: "process_page_task e u d st = (r, st1)"
    by (cases "process_page_task e u d st")
  let ?st1 = "st1\<lparr>trace_dispatch := trace_dispatch st1 @ [(u, d, r)]\<rparr>"
  from Cons.prems(1) have b: "base_inv H c0 st" by (simp add: run_inv_def)
  note ti = task_inv [OF b, where e = e and u = u and d = d]
  from ti p have b1: "base_inv H c0 st1" and tr1: "trace_dispatch st1 = trace_dispatch st"
    and gl: "\<forall>l\<in>set (links_of r). good H c0 l"
    and nl: "max_depth c0 \<le> d \<longrightarrow> links_of r = []"
    by simp_all
  from Cons.prems(4) t have gu: "good H c0 u" and pu: "parent_in (trace_dispatch st) d u"
    by simp_all
  have e: "entry_ok H c0 (trace_dispatch st) (u, d, r)"
    using gu pu gl nl Cons.prems(2,3) by (simp add: entry_ok_def)
  from run_inv_append [OF Cons.prems(1) b1 tr1 e] have i1: "run_inv H c0 ?st1" .
  have tr1': "trace_dispatch ?st1 = trace_dispatch st @ [(u, d, r)]" using tr1 by simp
  have rest: "\<forall>t\<in>set ts. good H c0 (snd t) \<and> parent_in (trace_dispatch ?st1) d (snd t)"
  proof
    fix t' assume m: "t' \<in> set ts"
    with Cons.prems(4) have "good H c0 (snd t')" "parent_in (trace_dispatch st) d (snd t')"
      by simp_all
    moreover have "set (trace_dispatch st) \<subseteq> set (trace_dispatch ?st1)" unfolding tr1' by auto
    ultimately show "good H c0 (snd t') \<and> parent_in (trace_dispatch ?st1) d (snd t')"
      using parent_in_mono by blast
  qed
  from Cons.IH [OF i1 Cons.prems(2,3) rest]
  have i2: "run_inv H c0 (snd (run_tasks e d ts ?st1))"
    and s2: "set (trace_dispatch ?st1) \<subseteq> set (trace_dispatch (snd (run_tasks e d ts ?st1)))"
    and r2: "\<forall>x\<in>set (fst (run_tasks e d ts ?st1)).
         (\<forall>l\<in>set (links_of (snd x)). good H c0 l)
         \<and> (\<exists>u. (u, d, snd x) \<in> set (trace_dispatch (snd (run_tasks e d ts ?st1))))"
    by simp_all
  obtain rs st2 where q: "run_tasks e d ts ?st1 = (rs, st2)" by (cases "run_tasks e d ts ?st1")
  have unf: "run_tasks e d (t # ts) st = ((i, r) # rs, st2)"
    using t p q by simp
  from s2 q tr1' have here: "(u, d, r) \<in> set (trace_dispatch st2)"
    and sub: "set (trace_dispatch st) \<subseteq> set (trace_dispatch st2)"
    by auto
  from i2 q have "run_inv H c0 st2" by simp
  moreover from r2 q have "\<forall>x\<in>set rs. (\<forall>l\<in>set (links_of (snd x)). good H c0 l)
         \<and> (\<exists>u. (u, d, snd x) \<in> set (trace_dispatch st2))" by simp
  ultimately show ?case
    unfolding unf using here sub gl by auto
qed

lemma task_order_set: "set (task_order e d level) = {0..<length level}"
proof -
  have "set (sort p) = {0..<n}" if "sort p = [0..<n]" for p :: "nat list" and n
    using that by simp
  then have "set p = {0..<n}" if "sort p = [0..<n]" for p :: "nat list" and n
    using that by (metis set_sort)
  then show ?thesis by (auto simp: task_order_def Let_def)
qed

lemma process_level_inv:
  assumes "run_inv H c0 st" "1 \<le> d" "d \<le> max_depth c0"
    "\<forall>u\<in>set level. good H c0 u \<and> parent_in (trace_dispatch st) d u"
  shows "run_inv H c0 (snd (process_level e level d st))"
    and "\<forall>l\<in>set (fst (process_level e level d st)).
           good H c0 l \<and> parent_in (trace_dispatch (snd (process_level e level d st))) (d + 1) l"
proof -
  let ?ts = "map (\<lambda>i. (i, level ! i)) (task_order e d level)"
  have ts: "\<forall>t\<in>set ?ts. good H c0 (snd t) \<and> parent_in (trace_dispatch st) d (snd t)"
    using assms(4) task_order_set [of e d level] by auto
  obtain rs st' where r: "run_tasks e d ?ts st = (rs, st')" by (cases "run_tasks e d ?ts st")
  from run_tasks_inv [OF assms(1,2,3) ts, where e = e] r
  have i: "run_inv H c0 st'"
    and l: "\<forall>x\<in>set rs. (\<forall>l\<in>set (links_of (snd x)). good H c0 l)
         \<and> (\<exists>u. (u, d, snd x) \<in> set (trace_dispatch st'))"
    by simp_all
  have p: "process_level e level d st = (concat (map (links_of \<circ> snd) (sort_key fst rs)), st')"
    using r by (simp add: process_level_def)
  from i p show "run_inv H c0 (snd (process_level e level d st))" by simp
  show "\<forall>l\<in>set (fst (process_level e level d st)).
           good H c0 l \<and> parent_in (trace_dispatch (snd (process_level e level d st))) (d + 1) l"
  proof
    fix l assume "l \<in> set (fst (process_level e level d st))"
    with p obtain x where x: "x \<in> set rs" "l \<in> set (links_of (snd x))" by auto
    with l obtain u where "good H c0 l" "(u, d, snd x) \<in> set (trace_dispatch st')" by blast
    with x(2) parent_in_next show "good H c0 l
        \<and> parent_in (trace_dispatch (snd (process_level e level d st))) (d + 1) l"
      unfolding p by auto
  qed
qed

lemma bfs_levels_inv:
  "run_inv H c0 st \<Longrightarrow> 1 \<le> depth \<Longrightarrow>
   \<forall>u\<in>set level. good H c0 u \<and> parent_in (trace_dispatch st) depth u \<Longrightarrow>
   run_inv H c0 (bfs_levels e level depth st)"
proof (induction e level depth st rule: bfs_levels.induct)
  case (1 e level depth st)
  show ?case
  proof (cases "level \<noteq> [] \<and> depth \<le> max_depth (self st)")
    case False
    then have "bfs_levels e level depth st = st"
      by (subst bfs_levels.simps) auto
    with "1.prems" show ?thesis by simp
  next
    case True
    from "1.prems"(1) have md: "max_depth (self st) = max_depth c0"
      by (metis run_inv_def base_inv_def config_of_fields(1))
    with True have d: "depth \<le> max_depth c0" by simp
    obtain next_level st' where p: "process_level e level depth st = (next_level, st')"
      by (cases "process_level e level depth st")
    from process_level_inv [OF "1.prems"(1,2) d "1.prems"(3), where e = e] p
    have i: "run_inv H c0 st'"
      and n: "\<forall>l\<in>set next_level. good H c0 l \<and> parent_in (trace_dispatch st') (depth + 1) l"
      by simp_all
    have u: "bfs_levels e level depth st = bfs_levels e next_level (depth + 1) st'"
      using True p by (subst bfs_levels.simps) simp
    from "1.prems"(2) have d1: "1 \<le> depth + 1" by simp
    from "1.IH" [OF True p [symmetric] i d1 n] u show ?thesis by simp
  qed
qed

lemma run_inv_log: "run_inv H c0 st \<Longrightarrow> run_inv H c0 (st\<lparr>log := l\<rparr>)"
  by (simp add: run_inv_def base_inv_def)

lemma run_loop_inv:
  "run_inv H c0 st \<Longrightarrow> run_inv H c0 (snd (run_loop n e i cnn st))"
proof (induction n arbitrary: i cnn st)
  case 0
  then show ?case by simp
next
  case (Suc n)
  obtain links st1 where x: "extract_links e (portal_hrefs e (i + 1)) st = (links, st1)"
    by (cases "extract_links e (portal_hrefs e (i + 1)) st")
  from Suc.prems have b: "base_inv H c0 st" by (simp add: run_inv_def)
  from extract_links_inv [OF b, where e = e and hrefs = "portal_hrefs e (i + 1)"] x
  have b1: "base_inv H c0 st1" and t1: "trace_dispatch st1 = trace_dispatch st"
    and g: "\<forall>l\<in>set links. good H c0 l"
    by simp_all
  from run_inv_same_trace [OF Suc.prems b1 t1] have i1: "run_inv H c0 st1" .
  have lv: "\<forall>u\<in>set links. good H c0 u \<and> parent_in (trace_dispatch st1) 1 u"
    using g by (simp add: parent_in_def)
  from bfs_levels_inv [OF i1 _ lv, where e = e] have i2: "run_inv H c0 (bfs_levels e links 1 st1)"
    by simp
  from run_inv_log [OF i1] have i3: "run_inv H c0 (st1\<lparr>log := log st1 @ [Info_exhausted]\<rparr>)" .
  show ?case
    unfolding run_loop_Suc [OF x] using Suc.IH [OF i1] Suc.IH [OF i2] i3
    by (simp del: run_loop.simps)
qed

text \<open>The URLs that \<^verbatim>\<open>load_history\<close> puts into \<open>processed_urls\<close> at the start of a run.\<close>

definition loaded_urls :: "env \<Rightarrow> state \<Rightarrow> string set" where
  "loaded_urls e st = (case load_history e st of Inl err \<Rightarrow> {} | Inr st1 \<Rightarrow> processed_urls (self st1))"

lemma load_history_fields:
  "load_history e st = Inr st1 \<Longrightarrow>
   seen_urls (self st1) = seen_urls (self st) \<and> trace_seen st1 = trace_seen st
   \<and> trace_dispatch st1 = trace_dispatch st \<and> config_of (self st1) = config_of (self st)"
  by (auto simp: load_history_def read_json_def config_of_def
        split: option.splits json_doc.splits prod.splits)

lemma run_inv_run:
  assumes "seen_urls (self st) = {}" "trace_seen st = []" "trace_dispatch st = []"
  shows "run_inv (loaded_urls e st) (self st) (snd (run n e st))"
proof (cases "load_history e st")
  case (Inl err)
  with assms show ?thesis
    by (simp add: run_def loaded_urls_def run_inv_def base_inv_def)
next
  case (Inr st1)
  from load_history_fields [OF Inr] assms
  have f: "seen_urls (self st1) = {}" "trace_seen st1 = []" "trace_dispatch st1 = []"
    "config_of (self st1) = config_of (self st)"
    by simp_all
  from Inr have h: "loaded_urls e st = processed_urls (self st1)" by (simp add: loaded_urls_def)
  have i1: "run_inv (loaded_urls e st) (self st) st1"
    using f h by (simp add: run_inv_def base_inv_def)
  show ?thesis
  proof (cases "browser_ok e")
    case False
    with Inr i1 show ?thesis by (simp add: run_def)
  next
    case True
    let ?st2 = "mark_seen (start_url (self st1)) st1"
    have "run_inv (loaded_urls e st) (self st) ?st2"
      using f h config_mark_seen [of "start_url (self st1)" st1]
      by (simp add: run_inv_def base_inv_def mark_seen_def)
    from run_loop_inv [OF this, where n = n and e = e and i = 0 and cnn = 0] Inr True show ?thesis by (simp add: run_def)
  qed
qed

subsection \<open>Runs of a crawler made by the constructor\<close>

lemma init_fresh:
  "init e su od hp cc md tm dl rm nl px orb dc = Inr c \<Longrightarrow>
   seen_urls c = {} \<and> processed_urls c = {} \<and> history c = []"
  by (auto simp: init_def split: option.splits prefixes_arg.splits)

lemma run_inv_init:
  assumes "init e0 su od hp cc md tm dl rm nl px orb dc = Inr c"
  shows "run_inv (loaded_urls e (start_state c fs)) c (snd (run n e (start_state c fs)))"
proof -
  from init_fresh [OF assms] have "seen_urls (self (start_state c fs)) = {}"
    "trace_seen (start_state c fs) = []" "trace_dispatch (start_state c fs) = []"
    "self (start_state c fs) = c"
    by (simp_all add: start_state_def)
  with run_inv_run [of "start_state c fs" e n] show ?thesis by simp
qed

lemma extract_links_fresh:
  "\<forall>l\<in>set (fst (extract_links e hrefs st)).
     prefix_allowed (self st) l \<and> l \<notin> seen_urls (self st) \<and> l \<notin> processed_urls (self st)
     \<and> l \<in> seen_urls (self (snd (extract_links e hrefs st)))"
proof -
  from extract_links_effect [of e hrefs st]
  obtain new where s: "snd (extract_links e hrefs st) = add_seen new st"
    and r: "set (fst (extract_links e hrefs st)) \<subseteq> set new"
    and f: "fresh_links st new"
    by blast
  from r f show ?thesis unfolding s
    by (auto simp: fresh_links_def add_seen_def list_all_iff)
qed

text \<open>The links that the filter lets through, when \<^verbatim>\<open>urldefrag\<close> accepts every link.\<close>

definition passing :: "env \<Rightarrow> string list \<Rightarrow> state \<Rightarrow> string set" where
  "passing e hs st =
     {n. \<exists>h\<in>set hs. h \<noteq> [] \<and> normalize_url e h = Some n \<and> prefix_allowed (self st) n
          \<and> n \<notin> seen_urls (self st) \<and> n \<notin> processed_urls (self st)}"

lemma passing_Nil: "passing e [] st = {}"
  by (simp add: passing_def)

lemma passing_skip:
  "h = [] \<or> (\<exists>n. normalize_url e h = Some n
        \<and> (\<not> prefix_allowed (self st) n \<or> n \<in> seen_urls (self st) \<or> n \<in> processed_urls (self st)))
   \<Longrightarrow> passing e (h # hs) st = passing e hs st"
  by (auto simp: passing_def)

lemma passing_emit:
  "h \<noteq> [] \<Longrightarrow> normalize_url e h = Some n \<Longrightarrow> prefix_allowed (self st) n \<Longrightarrow>
   n \<notin> seen_urls (self st) \<Longrightarrow> n \<notin> processed_urls (self st) \<Longrightarrow>
   passing e (h # hs) st = insert n (passing e hs (mark_seen n st))"
  by (auto simp: passing_def mark_seen_def)

lemma filter_links_passing:
  "\<forall>h\<in>set hs. h \<noteq> [] \<longrightarrow> normalize_url e h \<noteq> None \<Longrightarrow>
   \<exists>r. fst (filter_links e hs out st) = Some r \<and> set r = set out \<union> passing e hs st"
proof (induction e hs out st rule: filter_links.induct)
  case (1 e out st)
  show ?case by (simp add: passing_Nil)
next
  case (2 e h hs out st)
  from "2.prems" have rest: "\<forall>h\<in>set hs. h \<noteq> [] \<longrightarrow> normalize_url e h \<noteq> None" by simp
  show ?case
  proof (cases "h = []")
    case True
    from "2.IH"(1) [OF True rest] passing_skip [of h e st hs] True show ?thesis by simp
  next
    case nonempty: False
    with "2.prems" obtain n where n: "normalize_url e h = Some n" by auto
    show ?thesis
    proof (cases "prefix_allowed (self st) n \<and> n \<notin> seen_urls (self st) \<and> n \<notin> processed_urls (self st)")
      case True
      then have pa: "\<not> (prefixes (self st) \<noteq> [] \<and> \<not> prefix_allowed (self st) n)"
        and s: "n \<notin> seen_urls (self st)" and p: "n \<notin> processed_urls (self st)"
        by simp_all
      have eq: "filter_links e (h # hs) out st = filter_links e hs (out @ [n]) (mark_seen n st)"
        using nonempty n True by simp
      from "2.IH"(5) [OF nonempty n pa s p rest]
      obtain r where "fst (filter_links e hs (out @ [n]) (mark_seen n st)) = Some r"
        "set r = set (out @ [n]) \<union> passing e hs (mark_seen n st)"
        by blast
      with eq passing_emit [OF nonempty n _ s p, of hs] True show ?thesis
        by (auto simp del: filter_links.simps)
    next
      case False
      then have eq: "filter_links e (h # hs) out st = filter_links e hs out st"
        using nonempty n by (auto simp: prefix_allowed_def)
      from False n have sk: "passing e (h # hs) st = passing e hs st"
        by (intro passing_skip) auto
      have "\<exists>r. fst (filter_links e hs out st) = Some r \<and> set r = set out \<union> passing e hs st"
      proof (cases "prefixes (self st) \<noteq> [] \<and> \<not> prefix_allowed (self st) n")
        case True
        from "2.IH"(2) [OF nonempty n True rest] show ?thesis .
      next
        case np: False
        show ?thesis
        proof (cases "n \<in> seen_urls (self st)")
          case True
          from "2.IH"(3) [OF nonempty n np True rest] show ?thesis .
        next
          case ns: False
          with False np have "n \<in> processed_urls (self st)" by (auto simp: prefix_allowed_def)
          from "2.IH"(4) [OF nonempty n np ns this rest] show ?thesis .
        qed
      qed
      with eq sk show ?thesis by (simp del: filter_links.simps)
    qed
  qed
qed

lemma extract_links_passing:
  assumes "\<forall>h\<in>set hs. h \<noteq> [] \<longrightarrow> normalize_url e h \<noteq> None"
  shows "set (fst (extract_links e (Some hs) st)) = passing e hs st"
proof -
  from filter_links_passing [OF assms, of "[]" st]
  obtain r where "fst (filter_links e hs [] st) = Some r" "set r = passing e hs st" by auto
  then show ?thesis
    by (cases "filter_links e hs [] st") (simp add: extract_links_def)
qed

lemma prefix_allowed_iff:
  "prefix_allowed c u \<longleftrightarrow> prefixes c = [] \<or> (\<exists>p\<in>set (prefixes c). prefix p u)"
proof -
  have "starts_with_any ps u \<longleftrightarrow> (\<exists>p\<in>set ps. prefix p u)" for ps
    by (induction ps) auto
  then show ?thesis by (auto simp: prefix_allowed_def)
qed

lemmas run_defs =
  run_def load_history_def read_json_def mark_seen_def refresh_page_def bfs_levels.simps
  process_level_def task_order_def links_of_def loaded_urls_def prefix_allowed_def

lemma small_run_loaded:
  "loaded_urls small_web (start_state prefix_crawler old_disk) = {''https://x.test/a/0''}"
  by (simp add: run_defs task_defs small_web_def prefix_crawler_def demo_defs old_disk_def)

lemma small_run_trace:
  "trace_dispatch (snd (run 1 small_web (start_state prefix_crawler old_disk)))
     = [(''https://x.test/a/1'', 1, Some [''https://x.test/a/2'']),
        (''https://x.test/a/2'', 2, Some [])]"
  by (simp add: run_defs task_defs small_web_def prefix_crawler_def demo_defs old_disk_def)

lemma small_run_seen:
  "trace_seen (snd (run 1 small_web (start_state prefix_crawler old_disk)))
     = [''https://x.test/'', ''https://x.test/a/1'', ''https://x.test/a/2'']"
  by (simp add: run_defs task_defs small_web_def prefix_crawler_def demo_defs old_disk_def)

lemma prefix_crawler_init:
  "init plain_web ''https://x.test/'' ''out'' ''history.json'' 3 2 30000 0 ''pull'' 3
        (One_prefix ''https://x.test/a/'') False False = Inr prefix_crawler"
  by (simp add: prefix_crawler_def demo_defs)

section \<open>The claims\<close>

text \<open>
  Claim C1 says that a run in the mode \<^verbatim>\<open>none\<close> on a portal that never yields a link ends
  after \<^verbatim>\<open>no_new_limit\<close> empty rounds, the answer \<^verbatim>\<open>True\<close> of \<^verbatim>\<open>_refresh_page\<close>
  notwithstanding. In the code that answer sets the counter back to zero in every empty
  round, so the counter never reaches the limit: on such a portal, with the limit at 3, the
  loop has not left after any number \<open>n\<close> of rounds.
\<close>

theorem mode_none_never_exhausted:
  "fst (run n plain_web (start_state idle_crawler empty_disk)) = Still_running"
proof -
  have l: "load_history plain_web (start_state idle_crawler empty_disk)
      = Inr (start_state idle_crawler empty_disk)"
    by (simp add: load_history_def read_json_def fs_read_def idle_crawler_def demo_defs)
  have m: "refresh_mode (self (mark_seen (start_url (self (start_state idle_crawler empty_disk)))
              (start_state idle_crawler empty_disk))) = Mode_none"
    by (simp add: mark_seen_def idle_crawler_def demo_defs)
  have b: "browser_ok plain_web" by (simp add: plain_web_def)
  show ?thesis
    using run_loop_mode_none [OF m] l b by (simp add: run_def)
qed

text \<open>
  Claim C2 says that the releases of two tasks of the same domain by \<^verbatim>\<open>domain_delay_wait\<close>
  are at least \<^verbatim>\<open>delay_s\<close> apart, the check of the last dispatch time and its update being
  one atomic step. In the code the update comes after the sleep. With a delay of 2 and three
  slots: the first task enters at time 100 and is released at once; the second and the third
  enter at 101, both read 100 as the last dispatch and both sleep until 102, where both
  are released.
\<close>

theorem concurrent_waiters_released_together:
  "delay_s polite_crawler = 2 \<and>
   map_option (\<lambda>lb. map release_time (lb_waiters lb))
     (lobby_run (\<lambda>u. snd (split_url u))
        [''https://x.test/a/1'', ''https://x.test/a/2'', ''https://x.test/a/3'']
        [Enter 0 100, Enter 1 101, Enter 2 101, Wake 1 102, Wake 2 102]
        (lobby_start polite_crawler 3 0))
   = Some [Some 100, Some 102, Some 102]"
  by (simp add: polite_crawler_def demo_defs lobby_start_def lobby_step_def event_time_def
        sleep_needed_def stamp_domain_def release_time_def numeral_3_eq_3)

text \<open>
  Claim C5 says that the history file is, after any interruption, either the previous
  complete document or the new one, never truncated or half-written. Every call of
  \<^verbatim>\<open>write_json_atomic\<close> on the history uses the same temporary file. When the first writer
  has closed it and the second opens it before the first is resumed, the second truncates
  the file that the first then moves over the history: the history file is empty, and the
  second writer's data then go into the history file itself.
\<close>

theorem overlapping_writes_truncate_history:
  "fs_read old_disk ''history.json'' = Some ''{}''
   \<and> fs_read (snd (interleave [0, 0, 0, 1, 0] two_writers old_disk)) ''history.json'' = Some ''''
   \<and> fs_read (snd (interleave [0, 0, 0, 1, 0, 1] two_writers old_disk)) ''history.json''
       = Some ''{a, b}''
   \<and> map w_pc (fst (interleave [0, 0, 0, 1, 0, 1] two_writers old_disk))
       = [Pc_done, Pc_close 1]"
  by (simp add: fs_defs)


text \<open>
  Claim C7 says that when the robots file of an origin cannot be fetched, every URL of the
  origin is allowed, on the first query and on every later query answered from the cache.
  The code allows the first query and logs the warning, but what it caches is the parser
  whose \<^verbatim>\<open>read\<close> failed, and \<^verbatim>\<open>can_fetch\<close> of a parser that never read a file is
  \<^verbatim>\<open>False\<close>: the second URL of the same origin is refused.
\<close>

theorem robots_failure_refuses_second_query:
  "fst (can_fetch_robots robots_down ''https://x.test/a/1'' (start_state robots_crawler empty_disk))
     = Some True
   \<and> log (snd (can_fetch_robots robots_down ''https://x.test/a/1''
             (start_state robots_crawler empty_disk)))
     = [Warn_robots ''https://x.test'']
   \<and> fst (can_fetch_robots robots_down ''https://x.test/a/2''
        (snd (can_fetch_robots robots_down ''https://x.test/a/1''
               (start_state robots_crawler empty_disk))))
     = Some False"
  by (simp add: can_fetch_robots_def robots_down_def robots_crawler_def demo_defs
        rp_read_def rp_new_def cache_robots_def rp_can_fetch_def)

text \<open>
  Claim C10: the constructor clamps the numeric options instead of rejecting them. Whenever
  it returns a crawler, \<open>concurrency\<close> and \<open>max_depth\<close> and \<open>no_new_limit\<close> are the
  maximum of 1 and the value given, \<open>timeout_ms\<close> the maximum of 1000 and the value given,
  \<open>delay_s\<close> the maximum of 0 and the value given; with the same other arguments it returns
  a crawler for every choice of the five numbers; and the five bounds hold in the state that
  a run of this crawler has reached after any number of rounds, in any world, on any disk.
\<close>

theorem constructor_clamps_numeric_options:
  assumes "init e su od hp cc md tm dl rm nl px orb dc = Inr c"
  shows "concurrency c = max 1 cc \<and> max_depth c = max 1 md \<and> timeout_ms c = max 1000 tm
     \<and> delay_s c = max 0 dl \<and> no_new_limit c = max 1 nl
     \<and> (\<forall>cc' md' tm' dl' nl'. \<exists>c'. init e su od hp cc' md' tm' dl' rm nl' px orb dc = Inr c')
     \<and> (\<forall>n env fs.
          1 \<le> concurrency (self (snd (run n env (start_state c fs))))
          \<and> 1 \<le> max_depth (self (snd (run n env (start_state c fs))))
          \<and> 1000 \<le> timeout_ms (self (snd (run n env (start_state c fs))))
          \<and> 0 \<le> delay_s (self (snd (run n env (start_state c fs))))
          \<and> 1 \<le> no_new_limit (self (snd (run n env (start_state c fs)))))"
proof -
  from init_Inr [OF assms] have v: "concurrency c = max 1 cc" "max_depth c = max 1 md"
    "timeout_ms c = max 1000 tm" "delay_s c = max 0 dl" "no_new_limit c = max 1 nl"
    by simp_all
  from assms have "\<exists>c. init e su od hp cc md tm dl rm nl px orb dc = Inr c" by blast
  then have acc: "normalize_url e su \<noteq> None \<and> px \<noteq> No_prefixes"
    by (simp add: init_accepts)
  have a: "\<forall>cc' md' tm' dl' nl'. \<exists>c'. init e su od hp cc' md' tm' dl' rm nl' px orb dc = Inr c'"
    unfolding init_accepts using acc by simp
  have r: "\<And>n env fs.
          1 \<le> concurrency (self (snd (run n env (start_state c fs))))
          \<and> 1 \<le> max_depth (self (snd (run n env (start_state c fs))))
          \<and> 1000 \<le> timeout_ms (self (snd (run n env (start_state c fs))))
          \<and> 0 \<le> delay_s (self (snd (run n env (start_state c fs))))
          \<and> 1 \<le> no_new_limit (self (snd (run n env (start_state c fs))))"
  proof -
    fix n env fs
    have "self (start_state c fs) = c" by (simp add: start_state_def)
    with config_run [of n env "start_state c fs"]
    have "config_of (self (snd (run n env (start_state c fs)))) = config_of c" by simp
    from config_fields_eq [OF this] v
    show "1 \<le> concurrency (self (snd (run n env (start_state c fs))))
          \<and> 1 \<le> max_depth (self (snd (run n env (start_state c fs))))
          \<and> 1000 \<le> timeout_ms (self (snd (run n env (start_state c fs))))
          \<and> 0 \<le> delay_s (self (snd (run n env (start_state c fs))))
          \<and> 1 \<le> no_new_limit (self (snd (run n env (start_state c fs))))"
      by simp
  qed
  from v a r show ?thesis by blast
qed

theorem constructor_clamps_numeric_options_witness:
  "init plain_web ''https://x.test/'' ''out'' ''history.json'' 0 (- 5) 0 (- 1) ''none'' 0
        (Prefix_list []) True False = Inr careless_crawler
   \<and> concurrency careless_crawler = 1 \<and> max_depth careless_crawler = 1
   \<and> timeout_ms careless_crawler = 1000 \<and> delay_s careless_crawler = 0
   \<and> no_new_limit careless_crawler = 1"
proof -
  have h: "init plain_web ''https://x.test/'' ''out'' ''history.json'' 0 (- 5) 0 (- 1) ''none'' 0
        (Prefix_list []) True False = Inr careless_crawler"
    by (simp add: careless_crawler_def demo_defs)
  from constructor_clamps_numeric_options [OF h] h show ?thesis by simp
qed

text \<open>
  Claim C6: the history is recorded exactly when the export of the PDF succeeds. When the
  export fails or times out, \<^verbatim>\<open>_save_pdf_from_page\<close> raises and changes neither
  \<^verbatim>\<open>self\<close> nor the disk. A task whose export fails, or that does not get as far as the page
  (the robots check refuses or raises, the URL cannot be parsed, the browser opens no page),
  leaves the history, \<open>processed_urls\<close> and the disk as they were. A task that reaches the
  page and whose export succeeds leaves the entry of the URL in the history; when the history
  path has a name, so that the temporary path exists, the URL is in \<open>processed_urls\<close>, and if
  the disk does not fail and no other write of the history is in flight, the history file
  holds the new history.
\<close>

theorem history_recorded_iff_export_succeeds:
  "(pdf_export e url \<noteq> Pdf_saved \<longrightarrow>
      fst (save_pdf_from_page e url st) = Inl (Export_failed (pdf_export e url))
      \<and> self (snd (save_pdf_from_page e url st)) = self st
      \<and> disk (snd (save_pdf_from_page e url st)) = disk st)
   \<and> (pdf_export e url \<noteq> Pdf_saved
       \<or> \<not> (fst (can_fetch_robots e url st) = Some True \<and> urlparse e url \<noteq> None
             \<and> new_page_ok e url) \<longrightarrow>
      history (self (snd (process_page_task e url depth st))) = history (self st)
      \<and> processed_urls (self (snd (process_page_task e url depth st))) = processed_urls (self st)
      \<and> disk (snd (process_page_task e url depth st)) = disk st)
   \<and> (pdf_export e url = Pdf_saved \<and> fst (can_fetch_robots e url st) = Some True
       \<and> urlparse e url \<noteq> None \<and> new_page_ok e url \<longrightarrow>
      map_of (history (self (snd (process_page_task e url depth st)))) url
        = Some \<lparr>filename = page_title_prefix e url @ ''_'' @ url_hash e url @ ''.pdf'',
                sha1 = url_hash e url, saved_at = utc_now e url\<rparr>
      \<and> (tmp_path (history_file (self st)) \<noteq> None \<longrightarrow>
           url \<in> processed_urls (self (snd (process_page_task e url depth st)))
           \<and> (disk_fault e url = No_fault \<and> in_flight e url = [] \<longrightarrow>
                fs_read (disk (snd (process_page_task e url depth st))) (history_file (self st))
                  = Some (json_dumps e
                      (history (self (snd (process_page_task e url depth st))))))))"
proof -
  have a: "pdf_export e url \<noteq> Pdf_saved \<Longrightarrow>
      fst (save_pdf_from_page e url st) = Inl (Export_failed (pdf_export e url))
      \<and> self (snd (save_pdf_from_page e url st)) = self st
      \<and> disk (snd (save_pdf_from_page e url st)) = disk st"
    by (rule save_pdf_failed)
  have b: "pdf_export e url \<noteq> Pdf_saved \<or> \<not> reaches_page e url st \<Longrightarrow>
      history (self (snd (process_page_task e url depth st))) = history (self st)
      \<and> processed_urls (self (snd (process_page_task e url depth st))) = processed_urls (self st)
      \<and> disk (snd (process_page_task e url depth st)) = disk st"
    using durable_task_no_record [of e url st depth] by (simp add: durable_def)
  from a b task_records [of e url st depth] show ?thesis
    unfolding reaches_page_def by blast
qed

theorem history_recorded_iff_export_succeeds_witness:
  "pdf_export pdf_broken ''https://x.test/a/1'' = Pdf_saved
   \<and> processed_urls (self (snd (process_page_task pdf_broken ''https://x.test/a/1'' 1
        (start_state idle_crawler empty_disk)))) = {''https://x.test/a/1''}
   \<and> fs_read (disk (snd (process_page_task pdf_broken ''https://x.test/a/1'' 1
        (start_state idle_crawler empty_disk)))) ''history.json''
      = Some ''{https://x.test/a/1 -> page_0f.pdf; }''
   \<and> pdf_export pdf_broken ''https://x.test/a/2'' \<noteq> Pdf_saved
   \<and> processed_urls (self (snd (process_page_task pdf_broken ''https://x.test/a/2'' 1
        (start_state idle_crawler empty_disk)))) = {}
   \<and> disk (snd (process_page_task pdf_broken ''https://x.test/a/2'' 1
        (start_state idle_crawler empty_disk))) = empty_disk"
proof -
  let ?st = "start_state idle_crawler empty_disk"
  have a: "pdf_export pdf_broken ''https://x.test/a/1'' = Pdf_saved"
    and b: "pdf_export pdf_broken ''https://x.test/a/2'' \<noteq> Pdf_saved"
    and f: "disk_fault pdf_broken ''https://x.test/a/1'' = No_fault"
    and i: "in_flight pdf_broken ''https://x.test/a/1'' = []"
    and n: "new_page_ok pdf_broken ''https://x.test/a/1''"
    and u: "urlparse pdf_broken ''https://x.test/a/1'' \<noteq> None"
    by (simp_all add: pdf_broken_def plain_web_def)
  have r: "fst (can_fetch_robots pdf_broken ''https://x.test/a/1'' ?st) = Some True"
    by (simp add: can_fetch_robots_def idle_crawler_def demo_defs)
  have s: "self ?st = idle_crawler" "disk ?st = empty_disk"
    "history_file idle_crawler = ''history.json''" "processed_urls idle_crawler = {}"
    "tmp_path ''history.json'' \<noteq> None"
    by (simp_all add: idle_crawler_def demo_defs)
  have p: "processed_urls (self (snd (process_page_task pdf_broken ''https://x.test/a/1'' 1 ?st)))
      = {''https://x.test/a/1''}"
    by (simp add: task_defs pdf_broken_def idle_crawler_def demo_defs)
  have h: "history (self (snd (process_page_task pdf_broken ''https://x.test/a/1'' 1 ?st)))
      = [(''https://x.test/a/1'', \<lparr>filename = ''page_0f.pdf'', sha1 = ''0f'',
           saved_at = ''2024-01-01T00:00:00+00:00''\<rparr>)]"
    by (simp add: task_defs pdf_broken_def idle_crawler_def demo_defs)
  from history_recorded_iff_export_succeeds [of pdf_broken "''https://x.test/a/1''" ?st 1]
    history_recorded_iff_export_succeeds [of pdf_broken "''https://x.test/a/2''" ?st 1]
    a b f i n u r p h s
  show ?thesis by (simp add: pdf_broken_def plain_web_def show_history_def)
qed




text \<open>
  Claim C3: in a run of a crawler made by the constructor, every URL is added to
  \<open>seen_urls\<close> at most once (the trace of the calls of \<^verbatim>\<open>seen_urls.add\<close> has no
  repetition, and it holds exactly the elements of the set), and no URL that
  \<^verbatim>\<open>load_history\<close> found in the history file is dispatched to \<^verbatim>\<open>_process_page_task\<close> or
  is among the links a task returns for the next level. No extraction, in any state, emits a
  link that is in \<open>seen_urls\<close> or in \<open>processed_urls\<close>.
\<close>

theorem no_duplicate_processing:
  assumes "init e0 su od hp cc md tm dl rm nl px orb dc = Inr c"
  shows "distinct (trace_seen (snd (run n e (start_state c fs))))
     \<and> set (trace_seen (snd (run n e (start_state c fs))))
         = seen_urls (self (snd (run n e (start_state c fs))))
     \<and> (\<forall>(u, d, r)\<in>set (trace_dispatch (snd (run n e (start_state c fs)))).
          u \<notin> loaded_urls e (start_state c fs)
          \<and> (\<forall>l\<in>set (links_of r). l \<notin> loaded_urls e (start_state c fs)))
     \<and> (\<forall>hrefs st. \<forall>l\<in>set (fst (extract_links e hrefs st)).
          l \<notin> seen_urls (self st) \<and> l \<notin> processed_urls (self st))"
proof -
  from run_inv_init [OF assms, of e fs n]
  have i: "run_inv (loaded_urls e (start_state c fs)) c (snd (run n e (start_state c fs)))" .
  then have "distinct (trace_seen (snd (run n e (start_state c fs))))"
    "set (trace_seen (snd (run n e (start_state c fs))))
         = seen_urls (self (snd (run n e (start_state c fs))))"
    by (simp_all add: run_inv_def base_inv_def)
  moreover from i have "\<forall>(u, d, r)\<in>set (trace_dispatch (snd (run n e (start_state c fs)))).
          u \<notin> loaded_urls e (start_state c fs)
          \<and> (\<forall>l\<in>set (links_of r). l \<notin> loaded_urls e (start_state c fs))"
    unfolding run_inv_def entry_ok_def good_def by fastforce
  moreover have "\<forall>hrefs st. \<forall>l\<in>set (fst (extract_links e hrefs st)).
          l \<notin> seen_urls (self st) \<and> l \<notin> processed_urls (self st)"
    using extract_links_fresh by blast
  ultimately show ?thesis by blast
qed

theorem no_duplicate_processing_witness:
  "init plain_web ''https://x.test/'' ''out'' ''history.json'' 3 2 30000 0 ''pull'' 3
        (One_prefix ''https://x.test/a/'') False False = Inr prefix_crawler
   \<and> loaded_urls small_web (start_state prefix_crawler old_disk) = {''https://x.test/a/0''}
   \<and> trace_seen (snd (run 1 small_web (start_state prefix_crawler old_disk)))
       = [''https://x.test/'', ''https://x.test/a/1'', ''https://x.test/a/2'']
   \<and> distinct (trace_seen (snd (run 1 small_web (start_state prefix_crawler old_disk))))
   \<and> ''https://x.test/a/0''
       \<notin> fst ` set (trace_dispatch (snd (run 1 small_web (start_state prefix_crawler old_disk))))"
proof -
  note h = prefix_crawler_init
  note t = no_duplicate_processing [OF h, where n = 1 and e = small_web and fs = old_disk]
  from t have d: "distinct (trace_seen (snd (run 1 small_web (start_state prefix_crawler old_disk))))"
    by (rule conjunct1)
  from t [THEN conjunct2, THEN conjunct2, THEN conjunct1]
  have "\<forall>(u, d, r)\<in>set (trace_dispatch (snd (run 1 small_web (start_state prefix_crawler old_disk)))).
        u \<notin> loaded_urls small_web (start_state prefix_crawler old_disk)"
    by fast
  then have "\<forall>(u, d, r)\<in>set (trace_dispatch (snd (run 1 small_web (start_state prefix_crawler old_disk)))).
        u \<notin> {''https://x.test/a/0''}"
    by (simp only: small_run_loaded)
  then have n: "''https://x.test/a/0''
       \<notin> fst ` set (trace_dispatch (snd (run 1 small_web (start_state prefix_crawler old_disk))))"
    by fastforce
  from h small_run_loaded small_run_seen d n show ?thesis by (intro conjI)
qed

text \<open>
  Claim C4: in a run of a crawler made by the constructor, every task is dispatched at a
  depth between 1 and \<open>max_depth\<close>, a task at depth \<open>max_depth\<close> returns no link, and a URL
  dispatched at a depth above 1 is among the links that a task dispatched at the depth
  before returned. In any state a task at or beyond the maximal depth returns no link, and
  the loop over the levels does nothing at a depth beyond it.
\<close>

theorem depth_never_exceeds_max_depth:
  assumes "init e0 su od hp cc md tm dl rm nl px orb dc = Inr c"
  shows "(\<forall>(u, d, r)\<in>set (trace_dispatch (snd (run n e (start_state c fs)))).
          1 \<le> d \<and> d \<le> max_depth c \<and> (d = max_depth c \<longrightarrow> links_of r = [])
          \<and> (d = 1 \<or> (\<exists>p r'. (p, d - 1, r') \<in> set (trace_dispatch (snd (run n e (start_state c fs))))
                          \<and> u \<in> set (links_of r'))))
     \<and> (\<forall>u d st. max_depth (self st) \<le> d \<longrightarrow> links_of (fst (process_page_task e u d st)) = [])
     \<and> (\<forall>level d st. max_depth (self st) < d \<longrightarrow> bfs_levels e level d st = st)"
proof -
  from run_inv_init [OF assms, of e fs n]
  have i: "run_inv (loaded_urls e (start_state c fs)) c (snd (run n e (start_state c fs)))" .
  then have a: "\<forall>(u, d, r)\<in>set (trace_dispatch (snd (run n e (start_state c fs)))).
          1 \<le> d \<and> d \<le> max_depth c \<and> (d = max_depth c \<longrightarrow> links_of r = [])
          \<and> (d = 1 \<or> (\<exists>p r'. (p, d - 1, r') \<in> set (trace_dispatch (snd (run n e (start_state c fs))))
                          \<and> u \<in> set (links_of r')))"
    unfolding run_inv_def entry_ok_def parent_in_def by fastforce
  have b: "\<forall>u d st. max_depth (self st) \<le> d \<longrightarrow> links_of (fst (process_page_task e u d st)) = []"
  proof (intro allI impI)
    fix u d and st :: state
    assume m: "max_depth (self st) \<le> d"
    from task_shape [of st e u d] m
    show "links_of (fst (process_page_task e u d st)) = []"
      by (auto simp: links_of_def)
  qed
  have c: "\<forall>level d st. max_depth (self st) < d \<longrightarrow> bfs_levels e level d st = st"
  proof (intro allI impI)
    fix level d and st :: state
    assume "max_depth (self st) < d"
    then show "bfs_levels e level d st = st" by (subst bfs_levels.simps) simp
  qed
  from a b c show ?thesis by blast
qed

theorem depth_never_exceeds_max_depth_witness:
  "init plain_web ''https://x.test/'' ''out'' ''history.json'' 3 2 30000 0 ''pull'' 3
        (One_prefix ''https://x.test/a/'') False False = Inr prefix_crawler
   \<and> max_depth prefix_crawler = 2
   \<and> trace_dispatch (snd (run 1 small_web (start_state prefix_crawler old_disk)))
       = [(''https://x.test/a/1'', 1, Some [''https://x.test/a/2'']),
          (''https://x.test/a/2'', 2, Some [])]
   \<and> list_all (\<lambda>(u, d, r). 1 \<le> d \<and> d \<le> 2)
        (trace_dispatch (snd (run 1 small_web (start_state prefix_crawler old_disk))))"
proof -
  note h = prefix_crawler_init
  have m: "max_depth prefix_crawler = 2" by (simp add: prefix_crawler_def demo_defs)
  note t = depth_never_exceeds_max_depth [OF h, where n = 1 and e = small_web and fs = old_disk]
  from t [THEN conjunct1]
  have "\<forall>(u, d, r)\<in>set (trace_dispatch (snd (run 1 small_web (start_state prefix_crawler old_disk)))).
        1 \<le> d \<and> d \<le> max_depth prefix_crawler"
    by fast
  then have "\<forall>(u, d, r)\<in>set (trace_dispatch (snd (run 1 small_web (start_state prefix_crawler old_disk)))).
        1 \<le> d \<and> d \<le> 2"
    by (simp only: m)
  then have b: "list_all (\<lambda>(u, d, r). 1 \<le> d \<and> d \<le> 2)
        (trace_dispatch (snd (run 1 small_web (start_state prefix_crawler old_disk))))"
    by (simp only: list_all_iff)
  from h m small_run_trace b show ?thesis by (intro conjI)
qed

text \<open>
  Claim C8: the prefix filter. A URL is allowed when the list of prefixes is empty or one of
  them is a prefix of it. Every link an extraction emits is allowed, was neither seen nor
  processed, and is marked as seen; when \<^verbatim>\<open>urldefrag\<close> accepts every link of the page, the
  links emitted are exactly the normalised non-empty links that are allowed, not seen and not
  processed. The portal and the child pages go through the same \<^verbatim>\<open>extract_links\<close>, and in a
  run of a crawler made by the constructor every URL dispatched and every link returned is
  allowed.
\<close>

theorem prefix_filter:
  "(prefix_allowed c u \<longleftrightarrow> prefixes c = [] \<or> (\<exists>p\<in>set (prefixes c). prefix p u))
   \<and> (\<forall>l\<in>set (fst (extract_links e hrefs st)).
        prefix_allowed (self st) l \<and> l \<notin> seen_urls (self st) \<and> l \<notin> processed_urls (self st)
        \<and> l \<in> seen_urls (self (snd (extract_links e hrefs st))))
   \<and> ((\<forall>h\<in>set hs. h \<noteq> [] \<longrightarrow> normalize_url e h \<noteq> None) \<longrightarrow>
        set (fst (extract_links e (Some hs) st))
          = {n. \<exists>h\<in>set hs. h \<noteq> [] \<and> normalize_url e h = Some n \<and> prefix_allowed (self st) n
                  \<and> n \<notin> seen_urls (self st) \<and> n \<notin> processed_urls (self st)})
   \<and> (init e0 su od hp cc md tm dl rm nl px orb dc = Inr c0 \<longrightarrow>
        (\<forall>(v, d, r)\<in>set (trace_dispatch (snd (run n e (start_state c0 fs)))).
           prefix_allowed c0 v \<and> (\<forall>l\<in>set (links_of r). prefix_allowed c0 l)))"
proof -
  have a: "\<forall>(v, d, r)\<in>set (trace_dispatch (snd (run n e (start_state c0 fs)))).
           prefix_allowed c0 v \<and> (\<forall>l\<in>set (links_of r). prefix_allowed c0 l)"
    if "init e0 su od hp cc md tm dl rm nl px orb dc = Inr c0"
    using run_inv_init [OF that, of e fs n]
    unfolding run_inv_def entry_ok_def good_def by fastforce
  have b: "set (fst (extract_links e (Some hs) st))
          = {n. \<exists>h\<in>set hs. h \<noteq> [] \<and> normalize_url e h = Some n \<and> prefix_allowed (self st) n
                  \<and> n \<notin> seen_urls (self st) \<and> n \<notin> processed_urls (self st)}"
    if "\<forall>h\<in>set hs. h \<noteq> [] \<longrightarrow> normalize_url e h \<noteq> None"
    using extract_links_passing [OF that, of st] by (simp add: passing_def)
  from a b prefix_allowed_iff [of c u] extract_links_fresh [of e hrefs st]
  show ?thesis by blast
qed

theorem prefix_filter_witness:
  "init plain_web ''https://x.test/'' ''out'' ''history.json'' 3 2 30000 0 ''pull'' 3
        (One_prefix ''https://x.test/a/'') False False = Inr prefix_crawler
   \<and> prefixes prefix_crawler = [''https://x.test/a/'']
   \<and> \<not> prefix_allowed prefix_crawler ''https://x.test/b/1''
   \<and> fst (extract_links small_web (portal_hrefs small_web 1)
        (mark_seen ''https://x.test/'' (start_state prefix_crawler empty_disk)))
       = [''https://x.test/a/1'', ''https://x.test/a/0'']
   \<and> map fst (trace_dispatch (snd (run 1 small_web (start_state prefix_crawler old_disk))))
       = [''https://x.test/a/1'', ''https://x.test/a/2'']
   \<and> list_all (\<lambda>(v, d, r). prefix_allowed prefix_crawler v)
        (trace_dispatch (snd (run 1 small_web (start_state prefix_crawler old_disk))))"
proof -
  note h = prefix_crawler_init
  have p: "prefixes prefix_crawler = [''https://x.test/a/'']"
    by (simp add: prefix_crawler_def demo_defs)
  have x: "fst (extract_links small_web (portal_hrefs small_web 1)
        (mark_seen ''https://x.test/'' (start_state prefix_crawler empty_disk)))
       = [''https://x.test/a/1'', ''https://x.test/a/0'']"
    by (simp add: extract_links_def mark_seen_def prefix_allowed_def small_web_def
          prefix_crawler_def demo_defs)
  note t = prefix_filter [where c = prefix_crawler and u = "''https://x.test/b/1''"
      and e = small_web and hrefs = None and st = "start_state prefix_crawler old_disk"
      and hs = "[]" and e0 = plain_web and su = "''https://x.test/''" and od = "''out''"
      and hp = "''history.json''" and cc = 3 and md = 2 and tm = 30000 and dl = 0
      and rm = "''pull''" and nl = 3 and px = "One_prefix ''https://x.test/a/''"
      and orb = False and dc = False and ?c0.0 = prefix_crawler and n = 1 and fs = old_disk]
  from t [THEN conjunct1] p have b: "\<not> prefix_allowed prefix_crawler ''https://x.test/b/1''"
    by simp
  from t [THEN conjunct2, THEN conjunct2, THEN conjunct2, THEN mp, OF h]
  have "\<forall>(v, d, r)\<in>set (trace_dispatch (snd (run 1 small_web (start_state prefix_crawler old_disk)))).
        prefix_allowed prefix_crawler v"
    by fast
  then have a: "list_all (\<lambda>(v, d, r). prefix_allowed prefix_crawler v)
        (trace_dispatch (snd (run 1 small_web (start_state prefix_crawler old_disk))))"
    by (simp only: list_all_iff)
  have m: "map fst (trace_dispatch (snd (run 1 small_web (start_state prefix_crawler old_disk))))
       = [''https://x.test/a/1'', ''https://x.test/a/2'']"
    by (subst small_run_trace) simp
  from h p b x m a show ?thesis by (intro conjI)
qed

end
